theory Spec2Isabelle
  imports Main "HOL-Library.Word"
begin

section \<open>Machine types of src/src/vbucket.cc\<close>

text \<open>
  \<open>size_t\<close> and \<open>uint64_t\<close> are 64-bit unsigned words, \<open>uint32_t\<close> is a 32-bit
  word and a vBucket id (\<open>uint16_t\<close>) is a 16-bit word. \<open>hrtime_t\<close> is the
  64-bit nanosecond clock value returned by \<open>gethrtime()\<close>.
\<close>

type_synonym size_t = "64 word"
type_synonym uint64_t = "64 word"
type_synonym uint32_t = "32 word"
type_synonym uint16_t = "16 word"
type_synonym hrtime_t = "64 word"

section \<open>Saturating decrements of the dirty-queue counters\<close>

text \<open>
  \<open>std::atomic<T>::compare_exchange_strong(expected, desired)\<close> on an atomic that
  currently holds \<open>obj\<close>: on a match the atomic takes \<open>desired\<close> and the call
  returns true; otherwise nothing is stored and the call returns false. The
  result is the pair of the return value and the new content of the atomic.
\<close>

definition compare_exchange_strong :: "'a \<Rightarrow> 'a \<Rightarrow> 'a \<Rightarrow> bool \<times> 'a" where
  "compare_exchange_strong obj expected desired =
     (if obj = expected then (True, desired) else (False, obj))"

text \<open>
  \<open>VBucket::decrDirtyQueueMem(size_t decrementBy)\<close>: the do-while loop loads
  the counter, computes the saturated difference and retries until the
  compare-exchange succeeds. The argument is the content of
  \<open>dirtyQueueMem\<close>, the result its content after the call.
\<close>

function decrDirtyQueueMem :: "size_t \<Rightarrow> size_t \<Rightarrow> size_t" where
  "decrDirtyQueueMem dirtyQueueMem decrementBy =
     (let oldVal = dirtyQueueMem;
          newVal = (if oldVal < decrementBy then 0 else oldVal - decrementBy);
          r = compare_exchange_strong dirtyQueueMem oldVal newVal
      in if \<not> fst r then decrDirtyQueueMem (snd r) decrementBy else snd r)"
  by pat_completeness auto
termination
  by (relation "{}") (auto simp: compare_exchange_strong_def)

text \<open>
  \<open>VBucket::decrDirtyQueueAge(uint32_t decrementBy)\<close>: the counter and both
  locals are \<open>uint64_t\<close>; the 32-bit argument is converted to 64 bits in the
  comparison and in the subtraction.
\<close>

function decrDirtyQueueAge :: "uint64_t \<Rightarrow> uint32_t \<Rightarrow> uint64_t" where
  "decrDirtyQueueAge dirtyQueueAge decrementBy =
     (let oldVal = dirtyQueueAge;
          newVal = (if oldVal < ucast decrementBy then 0 else oldVal - ucast decrementBy);
          r = compare_exchange_strong dirtyQueueAge oldVal newVal
      in if \<not> fst r then decrDirtyQueueAge (snd r) decrementBy else snd r)"
  by pat_completeness auto
termination
  by (relation "{}") (auto simp: compare_exchange_strong_def)

text \<open>\<open>VBucket::decrDirtyQueuePendingWrites(size_t decrementBy)\<close>.\<close>

function decrDirtyQueuePendingWrites :: "size_t \<Rightarrow> size_t \<Rightarrow> size_t" where
  "decrDirtyQueuePendingWrites dirtyQueuePendingWrites decrementBy =
     (let oldVal = dirtyQueuePendingWrites;
          newVal = (if oldVal < decrementBy then 0 else oldVal - decrementBy);
          r = compare_exchange_strong dirtyQueuePendingWrites oldVal newVal
      in if \<not> fst r then decrDirtyQueuePendingWrites (snd r) decrementBy else snd r)"
  by pat_completeness auto
termination
  by (relation "{}") (auto simp: compare_exchange_strong_def)

text \<open>
  The loop of \<open>decrDirtyQueueMem\<close> when other threads write the counter. The
  list gives, for each attempt in turn, the value that another thread has
  stored between the load and the compare-exchange of that attempt (\<open>None\<close>
  when nobody has); after the listed attempts the loop runs undisturbed.
\<close>

fun decrDirtyQueueMem_interleaved :: "size_t \<Rightarrow> size_t \<Rightarrow> size_t option list \<Rightarrow> size_t" where
  "decrDirtyQueueMem_interleaved dirtyQueueMem decrementBy [] =
     decrDirtyQueueMem dirtyQueueMem decrementBy"
| "decrDirtyQueueMem_interleaved dirtyQueueMem decrementBy (w # ws) =
     (let oldVal = dirtyQueueMem;
          newVal = (if oldVal < decrementBy then 0 else oldVal - decrementBy);
          dirtyQueueMem = (case w of None \<Rightarrow> dirtyQueueMem | Some v \<Rightarrow> v);
          r = compare_exchange_strong dirtyQueueMem oldVal newVal
      in if \<not> fst r then decrDirtyQueueMem_interleaved (snd r) decrementBy ws else snd r)"

section \<open>The adaptive checkpoint-flush timeout\<close>

text \<open>
  \<open>VBucket::adjustCheckpointFlushTimeout(size_t wall_time)\<close>. The static
  atomic \<open>VBucket::chkFlushTimeout\<close> is the state; the function returns its
  new content. The bounds \<open>MIN_CHK_FLUSH_TIMEOUT\<close> and
  \<open>MAX_CHK_FLUSH_TIMEOUT\<close> are declared in vbucket.h, which is not part of the
  sources at hand, so they are parameters of the model.
\<close>

definition adjustCheckpointFlushTimeout ::
  "size_t \<Rightarrow> size_t \<Rightarrow> size_t \<Rightarrow> size_t \<Rightarrow> size_t" where
  "adjustCheckpointFlushTimeout MIN_CHK_FLUSH_TIMEOUT MAX_CHK_FLUSH_TIMEOUT
       wall_time chkFlushTimeout =
     (let middle = (MIN_CHK_FLUSH_TIMEOUT + MAX_CHK_FLUSH_TIMEOUT) div 2
      in if wall_time \<le> MIN_CHK_FLUSH_TIMEOUT then MIN_CHK_FLUSH_TIMEOUT
         else if wall_time \<le> middle then middle
         else MAX_CHK_FLUSH_TIMEOUT)"

section \<open>VBucketFilter\<close>

text \<open>
  The member \<open>std::set<uint16_t> acceptable\<close> is held as the list of its
  elements in iteration order, which for \<open>std::set\<close> is strictly ascending.
\<close>

datatype VBucketFilter = VBucketFilter (acceptable: "uint16_t list")

text \<open>\<open>std::set::insert\<close> on the ascending element list: an element already present is not inserted again.\<close>

fun set_insert :: "'a::linorder \<Rightarrow> 'a list \<Rightarrow> 'a list" where
  "set_insert v [] = [v]"
| "set_insert v (x # xs) =
     (if v < x then v # x # xs
      else if v = x then x # xs
      else x # set_insert v xs)"

text \<open>
  Modelled from the spec: the constructor \<open>VBucketFilter(const std::vector<uint16_t>&)\<close>
  is declared in vbucket.h, which is not part of the sources at hand. The spec
  describes the filter as a sorted set of vBucket ids, so the constructor
  inserts the elements of the vector into the set one after the other.
\<close>

definition VBucketFilter_from_vector :: "uint16_t list \<Rightarrow> VBucketFilter" where
  "VBucketFilter_from_vector a = VBucketFilter (foldl (\<lambda>s v. set_insert v s) [] a)"

text \<open>
  \<open>std::set_symmetric_difference\<close> of the C++ standard library on two
  ascending ranges: the smaller head is copied, equal heads are skipped on both
  sides, and what is left of either range is copied at the end.
\<close>

fun set_symmetric_difference :: "'a::linorder list \<Rightarrow> 'a list \<Rightarrow> 'a list" where
  "set_symmetric_difference [] ys = ys"
| "set_symmetric_difference (x # xs) [] = x # xs"
| "set_symmetric_difference (x # xs) (y # ys) =
     (if x < y then x # set_symmetric_difference xs (y # ys)
      else if y < x then y # set_symmetric_difference (x # xs) ys
      else set_symmetric_difference xs ys)"

text \<open>
  \<open>std::set_intersection\<close> of the C++ standard library: the loop ends as soon
  as one range is exhausted; an element is copied (from the first range) when
  neither head is smaller than the other.
\<close>

fun set_intersection :: "'a::linorder list \<Rightarrow> 'a list \<Rightarrow> 'a list" where
  "set_intersection [] ys = []"
| "set_intersection (x # xs) [] = []"
| "set_intersection (x # xs) (y # ys) =
     (if x < y then set_intersection xs (y # ys)
      else if \<not> y < x then x # set_intersection xs ys
      else set_intersection (x # xs) ys)"

text \<open>
  \<open>VBucketFilter::filter_diff\<close> and \<open>VBucketFilter::filter_intersection\<close>: the
  algorithm writes into the vector \<open>tmp\<close> of \<open>acceptable.size() + other.size()\<close>
  elements, and the filter is built from the part of \<open>tmp\<close> that was written.
\<close>

definition filter_diff :: "VBucketFilter \<Rightarrow> VBucketFilter \<Rightarrow> VBucketFilter" where
  "filter_diff this other =
     VBucketFilter_from_vector (set_symmetric_difference (acceptable this) (acceptable other))"

definition filter_intersection :: "VBucketFilter \<Rightarrow> VBucketFilter \<Rightarrow> VBucketFilter" where
  "filter_intersection this other =
     VBucketFilter_from_vector (set_intersection (acceptable this) (acceptable other))"

text \<open>The class invariant of the filter: \<open>acceptable\<close> iterates in strictly ascending order.\<close>

definition filter_wf :: "VBucketFilter \<Rightarrow> bool" where
  "filter_wf f = sorted_wrt (<) (acceptable f)"

subsection \<open>The stream printer\<close>

text \<open>\<open>std::ostream << uint16_t\<close> writes the value in decimal, without padding.\<close>

definition digit :: "nat \<Rightarrow> char" where
  "digit d = ''0123456789'' ! d"

function decimal :: "nat \<Rightarrow> string" where
  "decimal n = (if n < 10 then [digit n] else decimal (n div 10) @ [digit (n mod 10)])"
  by pat_completeness auto
termination
  by (relation "measure id") auto

definition out_uint16 :: "uint16_t \<Rightarrow> string" where
  "out_uint16 v = decimal (unat v)"

text \<open>
  The loop of \<open>isRange\<close>: \<open>val\<close> is the id the scan started at, \<open>length\<close> the
  count so far (written \<open>len\<close>), the list is the range from \<open>it\<close> to \<open>end\<close>. The sum
  \<open>val + length\<close> is computed in \<open>size_t\<close>; \<open>length\<close> never exceeds the number
  of elements of the set, so the sum does not wrap and natural-number addition
  is exact.
\<close>

fun isRange_scan :: "nat \<Rightarrow> nat \<Rightarrow> uint16_t list \<Rightarrow> nat" where
  "isRange_scan val len [] = len"
| "isRange_scan val len (x # xs) =
     (if val + len = unat x then isRange_scan val (Suc len) xs else len)"

text \<open>
  \<open>isRange(it, end, length)\<close> where \<open>x\<close> is the element \<open>*it\<close> and \<open>xs\<close> the
  elements after it up to \<open>end\<close> (the caller passes \<open>it \<noteq> end\<close>). The result
  is the returned flag together with the out-parameter \<open>length\<close>. The first
  test of the loop compares \<open>val + 0\<close> with \<open>*it\<close> and passes, so the count is at
  least one when it is decremented.
\<close>

definition isRange :: "uint16_t \<Rightarrow> uint16_t list \<Rightarrow> bool \<times> nat" where
  "isRange x xs =
     (let len = isRange_scan (unat x) 0 (x # xs);
          len = len - 1
      in (len > 1, len))"

text \<open>
  The \<open>for\<close> loop of \<open>operator<<\<close>: the list is the range from \<open>it\<close> to the
  end of \<open>acceptable\<close>. In the range branch \<open>last\<close> is \<open>it\<close> advanced
  \<open>length\<close> times, and the loop goes on behind \<open>last\<close>.
\<close>

function print_loop :: "bool \<Rightarrow> uint16_t list \<Rightarrow> string" where
  "print_loop needcomma [] = []"
| "print_loop needcomma (x # xs) =
     (if needcomma then '', '' else []) @
     (case isRange x xs of
        (True, len) \<Rightarrow>
          ''['' @ out_uint16 x @ '','' @ out_uint16 ((x # xs) ! len) @ '']'' @
          print_loop True (drop (Suc len) (x # xs))
      | (False, len) \<Rightarrow>
          out_uint16 x @ print_loop True xs)"
  by pat_completeness auto
termination
  by (relation "measure (\<lambda>(needcomma, xs). length xs)") auto

definition print_filter :: "VBucketFilter \<Rightarrow> string" where
  "print_filter f =
     (if acceptable f = [] then ''{ empty }''
      else ''{ '' @ print_loop False (acceptable f) @ '' }'')"

text \<open>
  The printer as the specification words it. \<open>runs\<close> cuts the ascending id list
  into its maximal runs of consecutive ids; a run of three or more ids is
  rendered as \<open>[lo,hi]\<close>, the ids of a shorter run one by one; the rendered
  items are separated by commas.
\<close>

fun runs :: "uint16_t list \<Rightarrow> uint16_t list list" where
  "runs [] = []"
| "runs [x] = [[x]]"
| "runs (x # y # ys) =
     (if unat y = unat x + 1
      then (x # hd (runs (y # ys))) # tl (runs (y # ys))
      else [x] # runs (y # ys))"

definition render_run :: "uint16_t list \<Rightarrow> string list" where
  "render_run r =
     (if 3 \<le> length r then [''['' @ out_uint16 (hd r) @ '','' @ out_uint16 (last r) @ '']'']
      else map out_uint16 r)"

text \<open>The rendered items of an id list, in order: the items of its runs, one run after the other.\<close>

definition rendered_items :: "uint16_t list \<Rightarrow> string list" where
  "rendered_items xs = concat (map render_run (runs xs))"

fun comma_separated :: "string list \<Rightarrow> string" where
  "comma_separated [] = []"
| "comma_separated [s] = s"
| "comma_separated (s # t # ts) = s @ '', '' @ comma_separated (t # ts)"

definition printer_spec :: "uint16_t list \<Rightarrow> string" where
  "printer_spec ids =
     (if ids = [] then ''{ empty }''
      else ''{ '' @ comma_separated (rendered_items ids) @ '' }'')"

text \<open>A list of ids that ascends in steps of one.\<close>

fun consecutive :: "uint16_t list \<Rightarrow> bool" where
  "consecutive [] = True"
| "consecutive [x] = True"
| "consecutive (x # y # ys) = (unat y = unat x + 1 \<and> consecutive (y # ys))"

text \<open>No run can be extended by the first id of the run that follows it.\<close>

fun runs_maximal :: "uint16_t list list \<Rightarrow> bool" where
  "runs_maximal [] = True"
| "runs_maximal [r] = True"
| "runs_maximal (r # s # rs) = (unat (hd s) \<noteq> unat (last r) + 1 \<and> runs_maximal (s # rs))"

section \<open>The client adapter\<close>

text \<open>
  A cookie is an opaque \<open>const void*\<close>; it is held as its address, a natural
  number, which is also the order \<open>std::map<const void*, \<dots>>\<close> iterates in.
\<close>

type_synonym cookie = nat
type_synonym DocKey = string

datatype ENGINE_ERROR_CODE =
  ENGINE_SUCCESS | ENGINE_KEY_ENOENT | ENGINE_NOT_MY_VBUCKET | ENGINE_TMPFAIL

text \<open>
  Modelled from the spec: \<open>EventuallyPersistentEngine\<close> is defined in ep_engine.h
  and ep_engine.cc, which are not part of the sources at hand. The spec lists
  the two calls the vBucket makes on the client adapter,
  \<open>notifyIOComplete(cookie, status)\<close> and \<open>storeEngineSpecific(cookie, ptr)\<close>.
  The model records every notification in the order in which it is made, and
  the engine-specific pointer stored for each cookie (\<open>None\<close> is the null
  pointer).
\<close>

record EventuallyPersistentEngine =
  notified :: "(cookie \<times> ENGINE_ERROR_CODE) list"
  engineSpecific :: "cookie \<Rightarrow> nat option"

definition notifyIOComplete ::
  "cookie \<Rightarrow> ENGINE_ERROR_CODE \<Rightarrow> EventuallyPersistentEngine \<Rightarrow> EventuallyPersistentEngine" where
  "notifyIOComplete c status e = e\<lparr>notified := notified e @ [(c, status)]\<rparr>"

definition storeEngineSpecific ::
  "cookie \<Rightarrow> nat option \<Rightarrow> EventuallyPersistentEngine \<Rightarrow> EventuallyPersistentEngine" where
  "storeEngineSpecific c ptr e = e\<lparr>engineSpecific := (engineSpecific e)(c := ptr)\<rparr>"

text \<open>The notifications made between an engine state \<open>e\<close> and a later state \<open>e'\<close>.\<close>

definition notified_since ::
  "EventuallyPersistentEngine \<Rightarrow> EventuallyPersistentEngine \<Rightarrow> (cookie \<times> ENGINE_ERROR_CODE) list" where
  "notified_since e e' = drop (length (notified e)) (notified e')"

text \<open>
  The local \<open>std::map<const void*, ENGINE_ERROR_CODE> toNotify\<close> as the list of
  its entries in ascending key order. \<open>map_assign k v m\<close> is \<open>m[k] = v\<close>: the
  value of an existing key is overwritten, a new key is inserted in its place.
\<close>

fun map_assign :: "cookie \<Rightarrow> 'v \<Rightarrow> (cookie \<times> 'v) list \<Rightarrow> (cookie \<times> 'v) list" where
  "map_assign k v [] = [(k, v)]"
| "map_assign k v (p # m) =
     (if k < fst p then (k, v) # p # m
      else if k = fst p then (k, v) # m
      else p # map_assign k v m)"

text \<open>The closing loop of both notification functions: one \<open>notifyIOComplete\<close> per entry of \<open>toNotify\<close>.\<close>

definition notify_all ::
  "(cookie \<times> ENGINE_ERROR_CODE) list \<Rightarrow> EventuallyPersistentEngine \<Rightarrow> EventuallyPersistentEngine" where
  "notify_all toNotify e = fold (\<lambda>itr. notifyIOComplete (fst itr) (snd itr)) toNotify e"

section \<open>The members of VBucket\<close>

datatype vbucket_state_t =
  vbucket_state_active | vbucket_state_replica | vbucket_state_pending | vbucket_state_dead

text \<open>
  \<open>HighPriorityVBEntry\<close>; the members \<open>id\<close> and \<open>isBySeqno_\<close> are written \<open>id'\<close> and \<open>isBySeqno'\<close>.
\<close>

record HighPriorityVBEntry =
  cookie :: cookie
  id' :: uint64_t
  start :: hrtime_t
  isBySeqno' :: bool

text \<open>
  \<open>VBucketBGFetchItem\<close> (its member \<open>cookie\<close> is written \<open>bgitem_cookie\<close>) and
  \<open>vb_bgfetch_item_ctx_t\<close>. The map \<open>pendingBGFetches\<close> is held as the list of
  its entries in the order its iteration visits them.
\<close>

record VBucketBGFetchItem =
  bgitem_cookie :: cookie
  metaDataOnly :: bool

record vb_bgfetch_item_ctx_t =
  bgfetched_list :: "VBucketBGFetchItem list"
  isMetaOnly :: bool

record KVShard =
  highPriorityCount :: size_t

text \<open>The counters of \<open>EPStats\<close> that the functions below write; its histograms are left out.\<close>

record EPStats =
  stats_pendingOps :: size_t
  pendingOpsMax :: size_t
  pendingOpsMaxDuration :: hrtime_t
  numRemainingBgItems :: size_t

text \<open>
  \<open>atomic_setIfBigger\<close> is declared in atomic.h, which is not part of the
  sources at hand: the atomic takes the new value if that is bigger.
\<close>

definition atomic_setIfBigger :: "'a::linorder \<Rightarrow> 'a \<Rightarrow> 'a" where
  "atomic_setIfBigger obj newValue = (if obj < newValue then newValue else obj)"

text \<open>
  Modelled from the spec: \<open>CheckpointManager\<close> is defined in checkpoint.h and
  checkpoint.cc, which are not part of the sources at hand. Of the manager only
  the id of the open checkpoint matters to \<open>VBucket::setState\<close>;
  \<open>getOpenCheckpointId\<close> reads it and \<open>setOpenCheckpointId\<close> writes it.
\<close>

record CheckpointManager =
  openCheckpointId :: uint64_t

definition getOpenCheckpointId :: "CheckpointManager \<Rightarrow> uint64_t" where
  "getOpenCheckpointId cm = openCheckpointId cm"

definition setOpenCheckpointId :: "uint64_t \<Rightarrow> CheckpointManager \<Rightarrow> CheckpointManager" where
  "setOpenCheckpointId i cm = cm\<lparr>openCheckpointId := i\<rparr>"

text \<open>
  Modelled from the spec: \<open>BloomFilter\<close> is defined in bloomfilter.h and
  bloomfilter.cc, which are not part of the sources at hand. The spec describes
  it as a bitset with a status; \<open>addKey\<close> sets the \<open>k\<close> bits of a key and
  \<open>maybeKeyExists\<close> returns false iff one of the \<open>k\<close> bits of the key is zero.
  The hash functions are a parameter: \<open>hashf key i\<close> is the \<open>i\<close>-th hash of
  the key.
\<close>

datatype bfilter_status_t = BFILTER_DISABLED | BFILTER_ENABLED | BFILTER_COMPACTING

record BloomFilter =
  status :: bfilter_status_t
  bitArray :: "bool list"
  noOfHashes :: nat

definition getStatus :: "BloomFilter \<Rightarrow> bfilter_status_t" where
  "getStatus f = status f"

definition setStatus :: "bfilter_status_t \<Rightarrow> BloomFilter \<Rightarrow> BloomFilter" where
  "setStatus to f = f\<lparr>status := to\<rparr>"

definition bit_position :: "(DocKey \<Rightarrow> nat \<Rightarrow> nat) \<Rightarrow> BloomFilter \<Rightarrow> DocKey \<Rightarrow> nat \<Rightarrow> nat" where
  "bit_position hashf f key i = hashf key i mod length (bitArray f)"

definition addKey :: "(DocKey \<Rightarrow> nat \<Rightarrow> nat) \<Rightarrow> DocKey \<Rightarrow> BloomFilter \<Rightarrow> BloomFilter" where
  "addKey hashf key f =
     f\<lparr>bitArray := fold (\<lambda>i bits. bits[bit_position hashf f key i := True])
                        [0 ..< noOfHashes f] (bitArray f)\<rparr>"

definition maybeKeyExists :: "(DocKey \<Rightarrow> nat \<Rightarrow> nat) \<Rightarrow> BloomFilter \<Rightarrow> DocKey \<Rightarrow> bool" where
  "maybeKeyExists hashf f key =
     list_all (\<lambda>i. bit_position hashf f key i < length (bitArray f)
                    \<and> bitArray f ! bit_position hashf f key i)
              [0 ..< noOfHashes f]"

text \<open>
  The members of \<open>VBucket\<close> that the functions below read or write. A null
  pointer is \<open>None\<close>. \<open>chkFlushTimeout\<close> is the static member shared by all
  vBuckets; \<open>stats\<close> and \<open>shard\<close> refer to objects owned by the bucket.
\<close>

record VBucket =
  state :: vbucket_state_t
  checkpointManager :: CheckpointManager
  pendingOps :: "cookie list"
  pendingOpsStart :: hrtime_t
  hpChks :: "HighPriorityVBEntry list"
  numHpChks :: size_t
  shard :: "KVShard option"
  pendingBGFetches :: "(DocKey \<times> vb_bgfetch_item_ctx_t) list"
  bFilter :: "BloomFilter option"
  tempFilter :: "BloomFilter option"
  stats :: EPStats
  chkFlushTimeout :: size_t

section \<open>Pending operations and state changes\<close>

text \<open>
  The \<open>while\<close> loop of \<open>VBucket::fireAllOps(engine, code)\<close>: the last pending
  operation is taken off the vector and notified, until the vector is empty.
\<close>

function fireAllOps_loop ::
  "ENGINE_ERROR_CODE \<Rightarrow> EventuallyPersistentEngine \<times> cookie list
     \<Rightarrow> EventuallyPersistentEngine \<times> cookie list" where
  "fireAllOps_loop code (e, ops) =
     (if ops \<noteq> []
      then fireAllOps_loop code (notifyIOComplete (last ops) code e, butlast ops)
      else (e, ops))"
  by pat_completeness auto
termination
  by (relation "measure (\<lambda>(code, e, ops). length ops)") auto

text \<open>
  \<open>VBucket::fireAllOps(engine, code)\<close>; \<open>now\<close> is the value \<open>gethrtime()\<close>
  returns. The function returns at once when \<open>pendingOpsStart\<close> is zero.
\<close>

definition fireAllOps_code ::
  "hrtime_t \<Rightarrow> ENGINE_ERROR_CODE \<Rightarrow> EventuallyPersistentEngine \<times> VBucket
     \<Rightarrow> EventuallyPersistentEngine \<times> VBucket" where
  "fireAllOps_code now code ev =
     (let e = fst ev; vb = snd ev in
      if pendingOpsStart vb > 0 then
        let st = stats vb;
            st = (if now > pendingOpsStart vb
                  then st\<lparr>pendingOpsMaxDuration :=
                          atomic_setIfBigger (pendingOpsMaxDuration st)
                            ((now - pendingOpsStart vb) div 1000)\<rparr>
                  else st);
            st = st\<lparr>stats_pendingOps := stats_pendingOps st - of_nat (length (pendingOps vb))\<rparr>;
            st = st\<lparr>pendingOpsMax :=
                      atomic_setIfBigger (pendingOpsMax st) (of_nat (length (pendingOps vb)))\<rparr>;
            r = fireAllOps_loop code (e, pendingOps vb)
        in (fst r, vb\<lparr>pendingOpsStart := 0, stats := st, pendingOps := snd r\<rparr>)
      else (e, vb))"

text \<open>\<open>VBucket::fireAllOps(engine)\<close>.\<close>

definition fireAllOps ::
  "hrtime_t \<Rightarrow> EventuallyPersistentEngine \<times> VBucket \<Rightarrow> EventuallyPersistentEngine \<times> VBucket" where
  "fireAllOps now ev =
     (if state (snd ev) = vbucket_state_active then fireAllOps_code now ENGINE_SUCCESS ev
      else if state (snd ev) = vbucket_state_pending then ev
      else fireAllOps_code now ENGINE_NOT_MY_VBUCKET ev)"

text \<open>
  The notifications that \<open>fireAllOps(engine)\<close> makes for a vBucket: none when
  \<open>pendingOpsStart\<close> is zero or the state is pending, otherwise one per pending
  operation, the last registered first, with the code the state selects.
\<close>

definition fired_ops :: "VBucket \<Rightarrow> (cookie \<times> ENGINE_ERROR_CODE) list" where
  "fired_ops vb =
     (if pendingOpsStart vb = 0 \<or> state vb = vbucket_state_pending then []
      else map (\<lambda>c. (c, if state vb = vbucket_state_active then ENGINE_SUCCESS
                         else ENGINE_NOT_MY_VBUCKET)) (rev (pendingOps vb)))"

text \<open>
  \<open>VBucket::setState(to)\<close>. The function has no engine argument: it reads and
  writes members of the vBucket only.
\<close>

definition setState :: "vbucket_state_t \<Rightarrow> VBucket \<Rightarrow> VBucket" where
  "setState to vb =
     (let oldstate = state vb;
          vb = (if to = vbucket_state_active
                   \<and> getOpenCheckpointId (checkpointManager vb) < 2
                then vb\<lparr>checkpointManager := setOpenCheckpointId 2 (checkpointManager vb)\<rparr>
                else vb)
      in vb\<lparr>state := to\<rparr>)"

text \<open>
  The effect of a call of \<open>setState\<close> on the engine and the vBucket together:
  the engine is not touched.
\<close>

definition setState_call ::
  "vbucket_state_t \<Rightarrow> EventuallyPersistentEngine \<times> VBucket
     \<Rightarrow> EventuallyPersistentEngine \<times> VBucket" where
  "setState_call to ev = (fst ev, setState to (snd ev))"

section \<open>High-priority persistence waiters\<close>

text \<open>
  Modelled from the spec: the constructor \<open>HighPriorityVBEntry(cookie, id, isBySeqno)\<close>
  is declared in vbucket.h, which is not part of the sources at hand. The spec
  gives a waiter the fields cookie, target id, wait type and the time it
  started at; \<open>now\<close> is the clock value at construction.
\<close>

definition new_HighPriorityVBEntry :: "hrtime_t \<Rightarrow> cookie \<Rightarrow> uint64_t \<Rightarrow> bool \<Rightarrow> HighPriorityVBEntry" where
  "new_HighPriorityVBEntry now c idNum isBySeqno =
     \<lparr>cookie = c, id' = idNum, start = now, isBySeqno' = isBySeqno\<rparr>"

text \<open>\<open>VBucket::addHighPriorityVBEntry(id, cookie, isBySeqno)\<close>.\<close>

definition addHighPriorityVBEntry ::
  "hrtime_t \<Rightarrow> uint64_t \<Rightarrow> cookie \<Rightarrow> bool \<Rightarrow> VBucket \<Rightarrow> VBucket" where
  "addHighPriorityVBEntry now idNum c isBySeqno vb =
     (let vb = vb\<lparr>shard := map_option (\<lambda>s. s\<lparr>highPriorityCount := highPriorityCount s + 1\<rparr>) (shard vb)\<rparr>;
          vb = vb\<lparr>hpChks := hpChks vb @ [new_HighPriorityVBEntry now c idNum isBySeqno]\<rparr>
      in vb\<lparr>numHpChks := of_nat (length (hpChks vb))\<rparr>)"

text \<open>
  The state of a walk over \<open>hpChks\<close>. \<open>sw_before\<close> holds the entries of the list
  in front of the iterator \<open>entry\<close>: \<open>++entry\<close> appends the current entry to
  it, \<open>hpChks.erase(entry)\<close> does not. \<open>sw_toNotify\<close> is the local map,
  \<open>sw_engine\<close>, \<open>sw_chkFlushTimeout\<close> and \<open>sw_shard\<close> are the engine, the static
  timeout and the shard as the walk changes them, and \<open>sw_calls\<close> counts the
  calls of \<open>gethrtime()\<close> made so far.
\<close>

record sweep =
  sw_before :: "HighPriorityVBEntry list"
  sw_toNotify :: "(cookie \<times> ENGINE_ERROR_CODE) list"
  sw_engine :: EventuallyPersistentEngine
  sw_chkFlushTimeout :: size_t
  sw_shard :: "KVShard option"
  sw_calls :: nat

definition decr_highPriorityCount :: "KVShard option \<Rightarrow> KVShard option" where
  "decr_highPriorityCount sh = map_option (\<lambda>s. s\<lparr>highPriorityCount := highPriorityCount s - 1\<rparr>) sh"

text \<open>
  One iteration of the \<open>while\<close> loop of \<open>VBucket::notifyOnPersistence\<close> at the
  entry \<open>entry\<close>. \<open>gethrtime n\<close> is the value the \<open>n\<close>-th call of the clock
  returns during this walk.
\<close>

definition notifyOnPersistence_step ::
  "size_t \<Rightarrow> size_t \<Rightarrow> (nat \<Rightarrow> hrtime_t) \<Rightarrow> uint64_t \<Rightarrow> bool
     \<Rightarrow> HighPriorityVBEntry \<Rightarrow> sweep \<Rightarrow> sweep" where
  "notifyOnPersistence_step MIN_CHK_FLUSH_TIMEOUT MAX_CHK_FLUSH_TIMEOUT gethrtime idNum isBySeqno entry sw =
     (if isBySeqno \<noteq> isBySeqno' entry then sw\<lparr>sw_before := sw_before sw @ [entry]\<rparr>
      else
        let wall_time = gethrtime (sw_calls sw) - start entry;
            sw = sw\<lparr>sw_calls := Suc (sw_calls sw)\<rparr>;
            spent = wall_time div 1000000000
        in if id' entry \<le> idNum then
             sw\<lparr>sw_toNotify := map_assign (cookie entry) ENGINE_SUCCESS (sw_toNotify sw),
                sw_chkFlushTimeout :=
                  adjustCheckpointFlushTimeout MIN_CHK_FLUSH_TIMEOUT MAX_CHK_FLUSH_TIMEOUT
                    (wall_time div 1000000000) (sw_chkFlushTimeout sw),
                sw_shard := decr_highPriorityCount (sw_shard sw)\<rparr>
           else if spent > sw_chkFlushTimeout sw then
             sw\<lparr>sw_chkFlushTimeout :=
                  adjustCheckpointFlushTimeout MIN_CHK_FLUSH_TIMEOUT MAX_CHK_FLUSH_TIMEOUT
                    spent (sw_chkFlushTimeout sw),
                sw_engine := storeEngineSpecific (cookie entry) None (sw_engine sw),
                sw_toNotify := map_assign (cookie entry) ENGINE_TMPFAIL (sw_toNotify sw),
                sw_shard := decr_highPriorityCount (sw_shard sw)\<rparr>
           else sw\<lparr>sw_before := sw_before sw @ [entry]\<rparr>)"

definition sweep_init :: "EventuallyPersistentEngine \<Rightarrow> VBucket \<Rightarrow> sweep" where
  "sweep_init e vb =
     \<lparr>sw_before = [], sw_toNotify = [], sw_engine = e,
      sw_chkFlushTimeout = chkFlushTimeout vb, sw_shard = shard vb, sw_calls = 0\<rparr>"

text \<open>
  \<open>VBucket::notifyOnPersistence(e, idNum, isBySeqno)\<close>: the walk over
  \<open>hpChks\<close> from \<open>begin()\<close> to \<open>end()\<close>, the store of \<open>numHpChks\<close>, and the
  notification of every entry of \<open>toNotify\<close>.
\<close>

definition notifyOnPersistence ::
  "size_t \<Rightarrow> size_t \<Rightarrow> (nat \<Rightarrow> hrtime_t) \<Rightarrow> uint64_t \<Rightarrow> bool
     \<Rightarrow> EventuallyPersistentEngine \<times> VBucket \<Rightarrow> EventuallyPersistentEngine \<times> VBucket" where
  "notifyOnPersistence MIN_CHK_FLUSH_TIMEOUT MAX_CHK_FLUSH_TIMEOUT gethrtime idNum isBySeqno ev =
     (let e = fst ev; vb = snd ev;
          sw = fold (notifyOnPersistence_step MIN_CHK_FLUSH_TIMEOUT MAX_CHK_FLUSH_TIMEOUT
                       gethrtime idNum isBySeqno)
                    (hpChks vb) (sweep_init e vb);
          vb = vb\<lparr>hpChks := sw_before sw,
                  numHpChks := of_nat (length (sw_before sw)),
                  chkFlushTimeout := sw_chkFlushTimeout sw,
                  shard := sw_shard sw\<rparr>
      in (notify_all (sw_toNotify sw) (sw_engine sw), vb))"

text \<open>
  One iteration of the first loop of \<open>VBucket::notifyAllPendingConnsFailed\<close>:
  every entry is erased.
\<close>

definition failAll_step :: "HighPriorityVBEntry \<Rightarrow> sweep \<Rightarrow> sweep" where
  "failAll_step entry sw =
     sw\<lparr>sw_toNotify := map_assign (cookie entry) ENGINE_TMPFAIL (sw_toNotify sw),
        sw_engine := storeEngineSpecific (cookie entry) None (sw_engine sw),
        sw_shard := decr_highPriorityCount (sw_shard sw)\<rparr>"

text \<open>
  The state of the loops over \<open>pendingBGFetches\<close>: the local map, the engine
  and the local counter \<open>num_of_deleted_pending_fetches\<close>.
\<close>

record bg_sweep =
  bg_toNotify :: "(cookie \<times> ENGINE_ERROR_CODE) list"
  bg_engine :: EventuallyPersistentEngine
  num_of_deleted_pending_fetches :: size_t

definition failAll_bgitem :: "VBucketBGFetchItem \<Rightarrow> bg_sweep \<Rightarrow> bg_sweep" where
  "failAll_bgitem bgitem bs =
     bs\<lparr>bg_toNotify := map_assign (bgitem_cookie bgitem) ENGINE_NOT_MY_VBUCKET (bg_toNotify bs),
        bg_engine := storeEngineSpecific (bgitem_cookie bgitem) None (bg_engine bs),
        num_of_deleted_pending_fetches := num_of_deleted_pending_fetches bs + 1\<rparr>"

definition failAll_bgf :: "DocKey \<times> vb_bgfetch_item_ctx_t \<Rightarrow> bg_sweep \<Rightarrow> bg_sweep" where
  "failAll_bgf bgf bs = fold failAll_bgitem (bgfetched_list (snd bgf)) bs"

text \<open>
  \<open>VBucket::notifyAllPendingConnsFailed(e)\<close>; \<open>now\<close> is the clock value read by
  the closing call of \<open>fireAllOps\<close>.
\<close>

definition notifyAllPendingConnsFailed ::
  "hrtime_t \<Rightarrow> EventuallyPersistentEngine \<times> VBucket \<Rightarrow> EventuallyPersistentEngine \<times> VBucket" where
  "notifyAllPendingConnsFailed now ev =
     (let e = fst ev; vb = snd ev;
          sw = fold failAll_step (hpChks vb) (sweep_init e vb);
          vb = vb\<lparr>hpChks := sw_before sw, shard := sw_shard sw\<rparr>;
          bs = fold failAll_bgf (pendingBGFetches vb)
                 \<lparr>bg_toNotify = sw_toNotify sw, bg_engine = sw_engine sw,
                  num_of_deleted_pending_fetches = 0\<rparr>;
          vb = vb\<lparr>stats := (stats vb)\<lparr>numRemainingBgItems :=
                      numRemainingBgItems (stats vb) - num_of_deleted_pending_fetches bs\<rparr>,
                  pendingBGFetches := []\<rparr>
      in fireAllOps now (notify_all (bg_toNotify bs) (bg_engine bs), vb))"

text \<open>The cookies registered in the high-priority waiter list and in the background-fetch map.\<close>

definition hp_cookies :: "VBucket \<Rightarrow> cookie list" where
  "hp_cookies vb = map cookie (hpChks vb)"

definition bg_cookies :: "VBucket \<Rightarrow> cookie list" where
  "bg_cookies vb = map bgitem_cookie (concat (map (\<lambda>bgf. bgfetched_list (snd bgf)) (pendingBGFetches vb)))"

text \<open>
  The content of \<open>toNotify\<close> when both loops of
  \<open>notifyAllPendingConnsFailed\<close> have run: the assignments of the first loop
  followed by those of the second.
\<close>

definition failAll_toNotify :: "VBucket \<Rightarrow> (cookie \<times> ENGINE_ERROR_CODE) list" where
  "failAll_toNotify vb =
     fold (\<lambda>c. map_assign c ENGINE_NOT_MY_VBUCKET) (bg_cookies vb)
       (fold (\<lambda>c. map_assign c ENGINE_TMPFAIL) (hp_cookies vb) [])"

section \<open>The bloom filter pair\<close>

text \<open>\<open>VBucket::maybeKeyExistsInFilter(key)\<close>.\<close>

definition maybeKeyExistsInFilter :: "(DocKey \<Rightarrow> nat \<Rightarrow> nat) \<Rightarrow> VBucket \<Rightarrow> DocKey \<Rightarrow> bool" where
  "maybeKeyExistsInFilter hashf vb key =
     (case bFilter vb of
        Some f \<Rightarrow> maybeKeyExists hashf f key
      | None \<Rightarrow> True)"

text \<open>\<open>VBucket::isTempFilterAvailable()\<close>.\<close>

definition isTempFilterAvailable :: "VBucket \<Rightarrow> bool" where
  "isTempFilterAvailable vb =
     (case tempFilter vb of
        Some t \<Rightarrow> getStatus t = BFILTER_COMPACTING \<or> getStatus t = BFILTER_ENABLED
      | None \<Rightarrow> False)"

text \<open>
  \<open>VBucket::swapFilter()\<close>. \<open>delete\<close> followed by the assignment of \<open>NULL\<close>
  leaves the slot empty; the assignment \<open>bFilter = tempFilter\<close> moves the temp
  filter object into the main slot.
\<close>

definition swapFilter :: "VBucket \<Rightarrow> VBucket" where
  "swapFilter vb =
     (let vb = (if bFilter vb \<noteq> None \<and> tempFilter vb \<noteq> None then vb\<lparr>bFilter := None\<rparr> else vb)
      in case tempFilter vb of
           Some t \<Rightarrow>
             if getStatus t = BFILTER_COMPACTING \<or> getStatus t = BFILTER_ENABLED
             then vb\<lparr>bFilter := Some (setStatus BFILTER_ENABLED t), tempFilter := None\<rparr>
             else vb\<lparr>tempFilter := None\<rparr>
         | None \<Rightarrow> vb)"

section \<open>Sample states\<close>

text \<open>Concrete states on which the theorems below are instantiated.\<close>

definition sample_engine :: EventuallyPersistentEngine where
  "sample_engine = \<lparr>notified = [], engineSpecific = (\<lambda>c. None)\<rparr>"

definition sample_filter :: "bfilter_status_t \<Rightarrow> BloomFilter" where
  "sample_filter st = \<lparr>status = st, bitArray = [False, True, False, False], noOfHashes = 2\<rparr>"

definition sample_hashf :: "DocKey \<Rightarrow> nat \<Rightarrow> nat" where
  "sample_hashf key i = length key + i"

definition sample_vb :: VBucket where
  "sample_vb =
     \<lparr>state = vbucket_state_active,
      checkpointManager = \<lparr>openCheckpointId = 0\<rparr>,
      pendingOps = [], pendingOpsStart = 0,
      hpChks = [], numHpChks = 0,
      shard = Some \<lparr>highPriorityCount = 0\<rparr>,
      pendingBGFetches = [],
      bFilter = None, tempFilter = None,
      stats = \<lparr>stats_pendingOps = 0, pendingOpsMax = 0, pendingOpsMaxDuration = 0,
               numRemainingBgItems = 0\<rparr>,
      chkFlushTimeout = 10\<rparr>"

text \<open>A clock that reads 50 seconds at every call.\<close>

definition sample_clock :: "nat \<Rightarrow> hrtime_t" where
  "sample_clock n = 50000000000"

text \<open>
  Three waiters registered at time 0: cookie 1 waits for seqno 5, cookie 2 for
  seqno 100, cookie 3 for checkpoint 1.
\<close>

definition waiters_vb :: VBucket where
  "waiters_vb =
     addHighPriorityVBEntry 0 1 3 False
       (addHighPriorityVBEntry 0 100 2 True
         (addHighPriorityVBEntry 0 5 1 True sample_vb))"

text \<open>Two seqno waiters registered with the same cookie, for seqno 5 and for seqno 100.\<close>

definition shared_cookie_vb :: VBucket where
  "shared_cookie_vb =
     addHighPriorityVBEntry 0 100 1 True (addHighPriorityVBEntry 0 5 1 True sample_vb)"

text \<open>The three waiters, two pending operations and a background fetch with two waiting cookies.\<close>

definition pending_vb :: VBucket where
  "pending_vb =
     waiters_vb\<lparr>pendingOps := [7, 8], pendingOpsStart := 5,
       pendingBGFetches :=
         [(''k'', \<lparr>bgfetched_list = [\<lparr>bgitem_cookie = 4, metaDataOnly = False\<rparr>,
                                     \<lparr>bgitem_cookie = 5, metaDataOnly = True\<rparr>],
                  isMetaOnly = False\<rparr>)]\<rparr>"

text \<open>The three waiters and a background fetch on which cookie 1 waits as well.\<close>

definition hp_bg_shared_vb :: VBucket where
  "hp_bg_shared_vb =
     waiters_vb\<lparr>pendingBGFetches :=
         [(''k'', \<lparr>bgfetched_list = [\<lparr>bgitem_cookie = 1, metaDataOnly = False\<rparr>],
                  isMetaOnly = False\<rparr>)]\<rparr>"

lemmas sample_defs = sample_vb_def sample_engine_def sample_clock_def waiters_vb_def
  shared_cookie_vb_def pending_vb_def hp_bg_shared_vb_def

lemmas run_defs = addHighPriorityVBEntry_def new_HighPriorityVBEntry_def
  notifyOnPersistence_def notifyOnPersistence_step_def sweep_init_def notify_all_def
  notifyIOComplete_def storeEngineSpecific_def adjustCheckpointFlushTimeout_def
  decr_highPriorityCount_def notifyAllPendingConnsFailed_def failAll_step_def failAll_bgf_def
  failAll_bgitem_def fireAllOps_def fireAllOps_code_def setState_call_def setState_def
  getOpenCheckpointId_def setOpenCheckpointId_def atomic_setIfBigger_def notified_since_def
  hp_cookies_def bg_cookies_def

declare fireAllOps_loop.simps [simp del]

section \<open>Properties of the counter decrements\<close>

lemma unat_ucast_32_64: "unat (ucast (d :: 32 word) :: 64 word) = unat d"
  by (simp add: unsigned_ucast_eq take_bit_nat_eq_self_iff)
     (rule order_less_le_trans [OF unsigned_less], simp)

lemma decrDirtyQueueMem_eq: "decrDirtyQueueMem v d = (if v < d then 0 else v - d)"
  by (simp add: compare_exchange_strong_def Let_def)

lemma decrDirtyQueueAge_eq: "decrDirtyQueueAge v d = (if v < ucast d then 0 else v - ucast d)"
  by (simp add: compare_exchange_strong_def Let_def)

lemma decrDirtyQueuePendingWrites_eq:
  "decrDirtyQueuePendingWrites v d = (if v < d then 0 else v - d)"
  by (simp add: compare_exchange_strong_def Let_def)

lemma saturating_sub_unat:
  "unat (if (v :: 64 word) < d then 0 else v - d)
     = (if unat d \<le> unat v then unat v - unat d else 0)"
  by (auto simp: word_less_nat_alt word_le_nat_alt unat_sub not_less not_le)

text \<open>
  Under writes of other threads the value that the loop stores is still a
  saturated difference: that of a value the counter held when it was loaded.
\<close>

lemma decrDirtyQueueMem_interleaved_saturating:
  "\<exists>v \<in> insert c {v. Some v \<in> set ws}.
      decrDirtyQueueMem_interleaved c d ws = (if v < d then 0 else v - d)"
proof (induction ws arbitrary: c)
  case Nil
  then show ?case by (simp add: decrDirtyQueueMem_eq del: decrDirtyQueueMem.simps)
next
  case (Cons w ws)
  have step: "decrDirtyQueueMem_interleaved c d (w # ws) =
     (if w = None \<or> w = Some c then (if c < d then 0 else c - d)
      else decrDirtyQueueMem_interleaved (the w) d ws)"
    by (cases w) (simp_all add: compare_exchange_strong_def Let_def del: decrDirtyQueueMem.simps)
  show ?case
  proof (cases "w = None \<or> w = Some c")
    case True
    then show ?thesis unfolding step by simp
  next
    case False
    then obtain v where w: "w = Some v" by (cases w) auto
    from Cons [of v] obtain u where u: "u \<in> insert v {v. Some v \<in> set ws}"
      and r: "decrDirtyQueueMem_interleaved v d ws = (if u < d then 0 else u - d)" by blast
    from u w have "u \<in> insert c {v. Some v \<in> set (w # ws)}" by auto
    moreover have "decrDirtyQueueMem_interleaved c d (w # ws) = (if u < d then 0 else u - d)"
      unfolding step using False w r by simp
    ultimately show ?thesis by blast
  qed
qed

text \<open>
  Claim C5: the three decrement operations are saturating subtractions. Read
  as unsigned numbers, the counter after the call holds \<open>v - d\<close> when
  \<open>v \<ge> d\<close> and \<open>0\<close> otherwise, for every counter value \<open>v\<close> and every
  amount \<open>d\<close>; the result is never a wrapped difference.
\<close>

theorem decr_saturating:
  "unat (decrDirtyQueueMem v d) = (if unat d \<le> unat v then unat v - unat d else 0)
 \<and> unat (decrDirtyQueueAge a d32) = (if unat d32 \<le> unat a then unat a - unat d32 else 0)
 \<and> unat (decrDirtyQueuePendingWrites p d) = (if unat d \<le> unat p then unat p - unat d else 0)"
  unfolding decrDirtyQueueMem_eq decrDirtyQueueAge_eq decrDirtyQueuePendingWrites_eq
    saturating_sub_unat unat_ucast_32_64
  by simp

theorem decr_saturating_witness:
  "decrDirtyQueueMem 3 5 = 0 \<and> decrDirtyQueueAge 7 5 = 2 \<and> decrDirtyQueuePendingWrites 0 1 = 0"
  using decr_saturating [of 3 5 7 5 0]
  by (simp add: compare_exchange_strong_def)

section \<open>Properties of the adaptive timeout\<close>

lemma adjust_bounds:
  assumes "unat MN + unat MX < 2 ^ 64" and "MN \<le> MX"
  shows "MN \<le> adjustCheckpointFlushTimeout MN MX w c"
    and "adjustCheckpointFlushTimeout MN MX w c \<le> MX"
  using assms
  by (auto simp: adjustCheckpointFlushTimeout_def Let_def word_le_nat_alt unat_div
      unat_word_ariths)

lemma adjust_mono:
  assumes "unat MN + unat MX < 2 ^ 64" and "MN \<le> MX" and "w1 \<le> w2"
  shows "adjustCheckpointFlushTimeout MN MX w1 c1 \<le> adjustCheckpointFlushTimeout MN MX w2 c2"
  using assms
  by (auto simp: adjustCheckpointFlushTimeout_def Let_def word_le_nat_alt unat_div
      unat_word_ariths)

text \<open>The band that a wall time selects, read as unsigned numbers.\<close>

lemma adjust_unat:
  assumes "unat MN + unat MX < 2 ^ 64"
  shows "unat (adjustCheckpointFlushTimeout MN MX w c) =
     (if unat w \<le> unat MN then unat MN
      else if unat w \<le> (unat MN + unat MX) div 2 then (unat MN + unat MX) div 2
      else unat MX)"
  using assms
  by (auto simp: adjustCheckpointFlushTimeout_def Let_def word_le_nat_alt unat_div
      unat_word_ariths)

text \<open>
  Whenever the lower bound is below the upper bound, a short wall time lowers
  a timeout that stands at the upper bound.
\<close>

lemma adjust_can_decrease:
  "MN < MX \<Longrightarrow> adjustCheckpointFlushTimeout MN MX 0 MX < MX"
  by (simp add: adjustCheckpointFlushTimeout_def)

text \<open>
  Claim C1, as stated, fails: with the bounds 10 and 30, a timeout of 30 and an
  observed wall time of 5, the timeout after the call is 10.
\<close>

theorem adjust_counterexample: "\<not> (30 \<le> adjustCheckpointFlushTimeout 10 30 5 30)"
  by (simp add: adjustCheckpointFlushTimeout_def)

text \<open>
  Claim C1, amended: the call overwrites the timeout with the band that the
  observed wall time selects, whatever the timeout was before: the lower bound
  when the wall time is at most the lower bound, the middle of the two bounds
  when it is above the lower bound and at most the middle, the upper bound
  otherwise. When the lower bound is not above the upper bound (and their sum
  fits \<open>size_t\<close>), the middle is the arithmetic half of the sum of the bounds,
  the new value lies between the bounds, it is not below a previous value that
  is at most the lower bound, and it does not decrease from one call to the
  next when the wall time of the second call is at least that of the first.
\<close>

theorem adjust_band:
  assumes "unat MN + unat MX < 2 ^ 64" and "MN \<le> MX"
  shows "adjustCheckpointFlushTimeout MN MX w c =
           (if w \<le> MN then MN
            else if w \<le> (MN + MX) div 2 then (MN + MX) div 2
            else MX)
       \<and> unat (adjustCheckpointFlushTimeout MN MX w c) =
           (if unat w \<le> unat MN then unat MN
            else if unat w \<le> (unat MN + unat MX) div 2 then (unat MN + unat MX) div 2
            else unat MX)
       \<and> adjustCheckpointFlushTimeout MN MX w c = adjustCheckpointFlushTimeout MN MX w c'
       \<and> MN \<le> adjustCheckpointFlushTimeout MN MX w c
       \<and> adjustCheckpointFlushTimeout MN MX w c \<le> MX
       \<and> (c \<le> MN \<longrightarrow> c \<le> adjustCheckpointFlushTimeout MN MX w c)
       \<and> (w \<le> w' \<longrightarrow> adjustCheckpointFlushTimeout MN MX w c
              \<le> adjustCheckpointFlushTimeout MN MX w' (adjustCheckpointFlushTimeout MN MX w c))"
proof -
  have 0: "adjustCheckpointFlushTimeout MN MX w c =
           (if w \<le> MN then MN
            else if w \<le> (MN + MX) div 2 then (MN + MX) div 2
            else MX)"
    by (simp add: adjustCheckpointFlushTimeout_def Let_def)
  note u = adjust_unat [OF assms(1), of w c]
  have 1: "adjustCheckpointFlushTimeout MN MX w c = adjustCheckpointFlushTimeout MN MX w c'"
    by (simp add: adjustCheckpointFlushTimeout_def)
  have 2: "MN \<le> adjustCheckpointFlushTimeout MN MX w c"
    and 3: "adjustCheckpointFlushTimeout MN MX w c \<le> MX"
    using adjust_bounds [OF assms] by blast+
  have 4: "c \<le> MN \<longrightarrow> c \<le> adjustCheckpointFlushTimeout MN MX w c"
    using 2 by auto
  have 5: "w \<le> w' \<longrightarrow> adjustCheckpointFlushTimeout MN MX w c
              \<le> adjustCheckpointFlushTimeout MN MX w' (adjustCheckpointFlushTimeout MN MX w c)"
    using adjust_mono [OF assms] by blast
  from 0 u 1 2 3 4 5 show ?thesis by blast
qed

theorem adjust_band_witness:
  "adjustCheckpointFlushTimeout 10 30 5 30 = 10 \<and> adjustCheckpointFlushTimeout 10 30 10 30 = 10
 \<and> adjustCheckpointFlushTimeout 10 30 15 10 = 20 \<and> adjustCheckpointFlushTimeout 10 30 20 10 = 20
 \<and> adjustCheckpointFlushTimeout 10 30 21 20 = 30 \<and> adjustCheckpointFlushTimeout 10 30 25 20 = 30
 \<and> unat (10 :: size_t) + unat (30 :: size_t) < 2 ^ 64 \<and> (10 :: size_t) \<le> 30"
proof -
  have h1: "unat (10 :: size_t) + unat (30 :: size_t) < 2 ^ 64" by simp
  have h2: "(10 :: size_t) \<le> 30" by simp
  show ?thesis
    using adjust_band [OF h1 h2, of 15 10 10 25] adjust_band [OF h1 h2, of 5 30 30 10]
      adjust_band [OF h1 h2, of 21 20 20 25]
    by (simp add: adjustCheckpointFlushTimeout_def)
qed

section \<open>Properties of setState and the open checkpoint id\<close>

text \<open>
  Claim C4: after \<open>setState\<close> with the target state active the open checkpoint
  id is at least 2; with any other target state the open checkpoint id is what
  it was before the call.
\<close>

theorem setState_open_checkpoint_id:
  "(to = vbucket_state_active \<longrightarrow> 2 \<le> getOpenCheckpointId (checkpointManager (setState to vb)))
 \<and> (to \<noteq> vbucket_state_active \<longrightarrow>
       getOpenCheckpointId (checkpointManager (setState to vb))
         = getOpenCheckpointId (checkpointManager vb))"
  by (auto simp: setState_def Let_def getOpenCheckpointId_def setOpenCheckpointId_def not_less)

theorem setState_open_checkpoint_id_witness:
  "getOpenCheckpointId (checkpointManager (setState vbucket_state_active sample_vb)) = 2
 \<and> getOpenCheckpointId (checkpointManager (setState vbucket_state_dead sample_vb)) = 0"
  using setState_open_checkpoint_id [of vbucket_state_active sample_vb]
        setState_open_checkpoint_id [of vbucket_state_dead sample_vb]
  by (simp add: setState_def sample_vb_def getOpenCheckpointId_def setOpenCheckpointId_def)

section \<open>Properties of the bloom filter pair\<close>

text \<open>\<open>swapFilter\<close> promotes the temp filter exactly when \<open>isTempFilterAvailable\<close> holds.\<close>

lemma isTempFilterAvailable_iff:
  "isTempFilterAvailable vb \<longleftrightarrow>
     (\<exists>t. tempFilter vb = Some t
          \<and> (getStatus t = BFILTER_COMPACTING \<or> getStatus t = BFILTER_ENABLED))"
  by (simp add: isTempFilterAvailable_def split: option.splits)

lemma swapFilter_no_temp: "tempFilter vb = None \<Longrightarrow> swapFilter vb = vb"
  by (simp add: swapFilter_def)

text \<open>
  Claim C8: when a temp filter exists and its status is compacting or enabled,
  \<open>swapFilter\<close> makes it the main filter with status enabled and empties the
  temp slot; when a temp filter exists with another status, the vBucket is left
  with neither a main nor a temp filter.
\<close>

theorem swapFilter_cases:
  "(tempFilter vb = Some t \<and> (getStatus t = BFILTER_COMPACTING \<or> getStatus t = BFILTER_ENABLED) \<longrightarrow>
      bFilter (swapFilter vb) = Some (setStatus BFILTER_ENABLED t) \<and> tempFilter (swapFilter vb) = None)
 \<and> (tempFilter vb = Some t \<and> \<not> (getStatus t = BFILTER_COMPACTING \<or> getStatus t = BFILTER_ENABLED) \<longrightarrow>
      bFilter (swapFilter vb) = None \<and> tempFilter (swapFilter vb) = None)"
  by (auto simp: swapFilter_def Let_def)

theorem swapFilter_cases_witness:
  "bFilter (swapFilter (sample_vb\<lparr>bFilter := Some (sample_filter BFILTER_COMPACTING),
                                  tempFilter := Some (sample_filter BFILTER_COMPACTING)\<rparr>))
     = Some (sample_filter BFILTER_ENABLED)
 \<and> bFilter (swapFilter (sample_vb\<lparr>bFilter := Some (sample_filter BFILTER_DISABLED),
                                  tempFilter := Some (sample_filter BFILTER_DISABLED)\<rparr>))
     = None"
  using swapFilter_cases [of "sample_vb\<lparr>bFilter := Some (sample_filter BFILTER_COMPACTING),
                                  tempFilter := Some (sample_filter BFILTER_COMPACTING)\<rparr>"
                             "sample_filter BFILTER_COMPACTING"]
        swapFilter_cases [of "sample_vb\<lparr>bFilter := Some (sample_filter BFILTER_DISABLED),
                                  tempFilter := Some (sample_filter BFILTER_DISABLED)\<rparr>"
                             "sample_filter BFILTER_DISABLED"]
  by (simp add: sample_filter_def getStatus_def setStatus_def)

text \<open>
  Claim C10: \<open>maybeKeyExistsInFilter\<close> returns true for every key when the
  vBucket has no main filter, and returns the answer of the main filter's
  \<open>maybeKeyExists\<close> when it has one.
\<close>

theorem maybeKeyExistsInFilter_cases:
  "(bFilter vb = None \<longrightarrow> maybeKeyExistsInFilter hashf vb key)
 \<and> (bFilter vb = Some f \<longrightarrow> maybeKeyExistsInFilter hashf vb key = maybeKeyExists hashf f key)"
  by (simp add: maybeKeyExistsInFilter_def)

theorem maybeKeyExistsInFilter_cases_witness:
  "maybeKeyExistsInFilter sample_hashf sample_vb ''k''
 \<and> \<not> maybeKeyExistsInFilter sample_hashf
         (sample_vb\<lparr>bFilter := Some (sample_filter BFILTER_ENABLED)\<rparr>) ''k''"
  using maybeKeyExistsInFilter_cases [of sample_vb sample_hashf "''k''"
          "sample_filter BFILTER_ENABLED"]
        maybeKeyExistsInFilter_cases [of "sample_vb\<lparr>bFilter := Some (sample_filter BFILTER_ENABLED)\<rparr>"
          sample_hashf "''k''" "sample_filter BFILTER_ENABLED"]
  by (simp add: sample_vb_def sample_filter_def maybeKeyExists_def bit_position_def
      sample_hashf_def upt_rec)

section \<open>Properties of the filter algebra\<close>

lemma set_set_insert: "set (set_insert v xs) = insert v (set xs)"
  by (induction xs) auto

lemma sorted_set_insert: "sorted_wrt (<) xs \<Longrightarrow> sorted_wrt (<) (set_insert v xs)"
  by (induction xs) (auto simp: set_set_insert)

lemma set_foldl_set_insert: "set (foldl (\<lambda>s v. set_insert v s) acc xs) = set acc \<union> set xs"
  by (induction xs arbitrary: acc) (auto simp: set_set_insert)

lemma sorted_foldl_set_insert:
  "sorted_wrt (<) acc \<Longrightarrow> sorted_wrt (<) (foldl (\<lambda>s v. set_insert v s) acc xs)"
  by (induction xs arbitrary: acc) (auto simp: sorted_set_insert)

lemma set_from_vector: "set (acceptable (VBucketFilter_from_vector xs)) = set xs"
  by (simp add: VBucketFilter_from_vector_def set_foldl_set_insert)

lemma wf_from_vector: "filter_wf (VBucketFilter_from_vector xs)"
  by (simp add: VBucketFilter_from_vector_def filter_wf_def sorted_foldl_set_insert)

lemma set_symmetric_difference_set:
  "sorted_wrt (<) xs \<Longrightarrow> sorted_wrt (<) ys \<Longrightarrow>
   set (set_symmetric_difference xs ys) = (set xs - set ys) \<union> (set ys - set xs)"
proof (induction xs ys rule: set_symmetric_difference.induct)
  case (1 ys)
  then show ?case by simp
next
  case (2 x xs)
  then show ?case by simp
next
  case (3 x xs y ys)
  then show ?case by (cases "x < y"; cases "y < x") (auto simp: not_less)
qed

lemma set_symmetric_difference_commute:
  "set_symmetric_difference xs ys = set_symmetric_difference ys xs"
proof (induction xs ys rule: set_symmetric_difference.induct)
  case (1 ys)
  then show ?case by (cases ys) simp_all
next
  case (2 x xs)
  then show ?case by simp
next
  case (3 x xs y ys)
  then show ?case by (cases "x < y"; cases "y < x") auto
qed

lemma set_intersection_set:
  "sorted_wrt (<) xs \<Longrightarrow> sorted_wrt (<) ys \<Longrightarrow>
   set (set_intersection xs ys) = set xs \<inter> set ys"
proof (induction xs ys rule: set_intersection.induct)
  case (1 ys)
  then show ?case by simp
next
  case (2 x xs)
  then show ?case by simp
next
  case (3 x xs y ys)
  then show ?case by (cases "x < y"; cases "y < x") (auto simp: not_less)
qed

text \<open>Neither algorithm writes behind the end of the vector \<open>tmp\<close>.\<close>

lemma length_set_symmetric_difference:
  "length (set_symmetric_difference xs ys) \<le> length xs + length ys"
  by (induction xs ys rule: set_symmetric_difference.induct) auto

lemma length_set_intersection:
  "length (set_intersection xs ys) \<le> length xs + length ys"
  by (induction xs ys rule: set_intersection.induct) auto

text \<open>
  Claim C7: for all filters \<open>a\<close> and \<open>b\<close>, an id is in \<open>a.filter_diff(b)\<close> iff
  it is in exactly one of \<open>a\<close> and \<open>b\<close>; \<open>filter_diff\<close> is commutative; and
  \<open>a.filter_intersection(b)\<close> holds exactly the ids that are in both.
\<close>

theorem filter_diff_symmetric_difference:
  assumes "filter_wf a" and "filter_wf b"
  shows "(\<forall>v. v \<in> set (acceptable (filter_diff a b))
               \<longleftrightarrow> (v \<in> set (acceptable a)) \<noteq> (v \<in> set (acceptable b)))
       \<and> filter_diff a b = filter_diff b a
       \<and> (\<forall>v. v \<in> set (acceptable (filter_intersection a b))
               \<longleftrightarrow> v \<in> set (acceptable a) \<and> v \<in> set (acceptable b))
       \<and> filter_wf (filter_diff a b) \<and> filter_wf (filter_intersection a b)"
proof -
  from assms have sa: "sorted_wrt (<) (acceptable a)" and sb: "sorted_wrt (<) (acceptable b)"
    by (simp_all add: filter_wf_def)
  have d: "set (acceptable (filter_diff a b))
             = (set (acceptable a) - set (acceptable b)) \<union> (set (acceptable b) - set (acceptable a))"
    by (simp add: filter_diff_def set_from_vector set_symmetric_difference_set [OF sa sb])
  have i: "set (acceptable (filter_intersection a b)) = set (acceptable a) \<inter> set (acceptable b)"
    by (simp add: filter_intersection_def set_from_vector set_intersection_set [OF sa sb])
  have c: "filter_diff a b = filter_diff b a"
    by (simp add: filter_diff_def set_symmetric_difference_commute [of "acceptable a"])
  have w: "filter_wf (filter_diff a b)" "filter_wf (filter_intersection a b)"
    by (simp_all add: filter_diff_def filter_intersection_def wf_from_vector)
  from d i c w show ?thesis by blast
qed

theorem filter_diff_symmetric_difference_witness:
  "filter_diff (VBucketFilter [1, 2, 3]) (VBucketFilter [2, 3, 4]) = VBucketFilter [1, 4]
 \<and> filter_diff (VBucketFilter [2, 3, 4]) (VBucketFilter [1, 2, 3]) = VBucketFilter [1, 4]
 \<and> filter_intersection (VBucketFilter [1, 2, 3]) (VBucketFilter [2, 3, 4]) = VBucketFilter [2, 3]"
proof -
  have a: "filter_wf (VBucketFilter [1, 2, 3])" and b: "filter_wf (VBucketFilter [2, 3, 4])"
    by (simp_all add: filter_wf_def)
  show ?thesis
    using filter_diff_symmetric_difference [OF a b]
    by (simp add: filter_diff_def filter_intersection_def VBucketFilter_from_vector_def)
qed

section \<open>Properties of the stream printer\<close>

lemma isRange_scan_Suc: "isRange_scan v (Suc len) xs = Suc (isRange_scan (Suc v) len xs)"
  by (induction xs arbitrary: len) auto

lemma isRange_scan_le: "isRange_scan v len xs \<le> len + length xs"
proof (induction xs arbitrary: len)
  case Nil
  then show ?case by simp
next
  case (Cons x xs)
  from Cons [of "Suc len"] show ?case by simp
qed

lemma isRange_scan_ge: "len \<le> isRange_scan v len xs"
proof (induction xs arbitrary: len)
  case Nil
  then show ?case by simp
next
  case (Cons x xs)
  from Cons [of "Suc len"] show ?case by simp
qed

text \<open>
  At the decrement in \<open>isRange\<close> the count is at least one, so it does not
  wrap, and the returned length keeps \<open>last\<close> inside the set.
\<close>

lemma isRange_scan_bounds:
  "1 \<le> isRange_scan (unat x) 0 (x # xs)"
  "isRange_scan (unat x) 0 (x # xs) - 1 < length (x # xs)"
proof -
  have "Suc 0 \<le> isRange_scan (unat x) (Suc 0) xs" by (rule isRange_scan_ge)
  then show "1 \<le> isRange_scan (unat x) 0 (x # xs)" by simp
  have "isRange_scan (unat x) (Suc 0) xs \<le> Suc 0 + length xs" by (rule isRange_scan_le)
  then show "isRange_scan (unat x) 0 (x # xs) - 1 < length (x # xs)" by simp
qed

lemma runs_Nil_iff: "runs xs = [] \<longleftrightarrow> xs = []"
  by (induction xs rule: runs.induct) auto

lemma runs_Cons_ex: "\<exists>r rs. runs (x # xs) = (x # r) # rs"
  by (cases xs) simp_all

lemma runs_Cons_obtain:
  obtains r rs where "runs (x # xs) = (x # r) # rs"
  using runs_Cons_ex by blast

lemma concat_runs: "concat (runs xs) = xs"
proof (induction xs rule: runs.induct)
  case (3 x y ys)
  obtain r rs where r: "runs (y # ys) = (y # r) # rs" by (rule runs_Cons_obtain)
  with 3 show ?case by auto
qed simp_all

lemma runs_nonempty: "r \<in> set (runs xs) \<Longrightarrow> r \<noteq> []"
proof (induction xs arbitrary: r rule: runs.induct)
  case (3 x y ys)
  obtain r' rs where r: "runs (y # ys) = (y # r') # rs" by (rule runs_Cons_obtain)
  with 3 show ?case by (auto split: if_splits)
qed simp_all

lemma runs_consecutive: "r \<in> set (runs xs) \<Longrightarrow> consecutive r"
proof (induction xs arbitrary: r rule: runs.induct)
  case (3 x y ys)
  obtain r' rs where r: "runs (y # ys) = (y # r') # rs" by (rule runs_Cons_obtain)
  with 3 show ?case by (auto split: if_splits)
qed simp_all

lemma runs_are_maximal: "runs_maximal (runs xs)"
proof (induction xs rule: runs.induct)
  case (3 x y ys)
  obtain r' rs where r: "runs (y # ys) = (y # r') # rs" by (rule runs_Cons_obtain)
  with 3 show ?case by (cases rs) (auto split: if_splits)
qed simp_all

lemma scan_first_run: "isRange_scan (unat x) 0 (x # xs) = length (hd (runs (x # xs)))"
proof (induction xs arbitrary: x)
  case Nil
  then show ?case by simp
next
  case (Cons y ys)
  show ?case
  proof (cases "unat y = unat x + 1")
    case True
    have "isRange_scan (unat x) 0 (x # y # ys) = isRange_scan (unat x) (Suc (Suc 0)) ys"
      using True by simp
    also have "\<dots> = Suc (isRange_scan (unat y) (Suc 0) ys)"
      using True by (simp add: isRange_scan_Suc [of "unat x"])
    also have "\<dots> = Suc (isRange_scan (unat y) 0 (y # ys))" by simp
    also have "\<dots> = Suc (length (hd (runs (y # ys))))" by (simp only: Cons.IH)
    finally show ?thesis using True by simp
  next
    case False
    then show ?thesis by auto
  qed
qed

lemma first_run_take:
  "xs \<noteq> [] \<Longrightarrow> hd (runs xs) = take (length (hd (runs xs))) xs
              \<and> tl (runs xs) = runs (drop (length (hd (runs xs))) xs)"
proof (induction xs rule: runs.induct)
  case (3 x y ys)
  then show ?case by auto
qed simp_all

lemma rendered_items_Nil: "rendered_items [] = []" by (simp add: rendered_items_def)

lemma render_run_nonempty: "r \<noteq> [] \<Longrightarrow> render_run r \<noteq> []"
  by (simp add: render_run_def)

lemma rendered_items_eq_Nil_iff: "rendered_items xs = [] \<longleftrightarrow> xs = []"
proof
  assume "rendered_items xs = []"
  show "xs = []"
  proof (rule ccontr)
    assume "xs \<noteq> []"
    then obtain x xs' where "xs = x # xs'" by (cases xs) auto
    moreover obtain r rs where "runs (x # xs') = (x # r) # rs" by (rule runs_Cons_obtain)
    ultimately have "runs xs = (x # r) # rs" by simp
    with \<open>rendered_items xs = []\<close> show False by (simp add: rendered_items_def render_run_def split: if_splits)
  qed
qed (simp add: rendered_items_def)

lemma rendered_items_range:
  assumes "3 \<le> length (hd (runs (x # xs)))"
  shows "rendered_items (x # xs) =
     (''['' @ out_uint16 x @ '','' @ out_uint16 ((x # xs) ! (length (hd (runs (x # xs))) - 1)) @ '']'')
     # rendered_items (drop (length (hd (runs (x # xs)))) (x # xs))"
proof -
  define n where "n = length (hd (runs (x # xs)))"
  obtain r rs where r: "runs (x # xs) = (x # r) # rs" by (rule runs_Cons_obtain)
  have "hd (runs (x # xs)) = take n (x # xs) \<and> tl (runs (x # xs)) = runs (drop n (x # xs))"
    unfolding n_def by (rule first_run_take) simp
  then have t: "x # r = take n (x # xs)" and d: "rs = runs (drop n (x # xs))"
    by (simp_all add: r)
  have n: "n = Suc (length r)" by (simp add: n_def r)
  have "last (x # r) = (x # r) ! length r" by (simp add: last_conv_nth)
  also have "\<dots> = take n (x # xs) ! length r" by (simp only: t [symmetric])
  also have "\<dots> = (x # xs) ! length r" by (rule nth_take) (simp add: n)
  finally have l: "last (x # r) = (x # xs) ! (n - 1)" by (simp add: n)
  have "rendered_items (x # xs) = render_run (x # r) @ rendered_items (drop n (x # xs))"
    by (simp add: rendered_items_def r d)
  moreover have "render_run (x # r) = [''['' @ out_uint16 x @ '','' @ out_uint16 (last (x # r)) @ '']'']"
    using assms by (simp add: render_run_def r)
  ultimately show ?thesis unfolding n_def [symmetric] l by simp
qed

lemma rendered_items_single:
  assumes "length (hd (runs (x # xs))) < 3"
  shows "rendered_items (x # xs) = out_uint16 x # rendered_items xs"
proof (cases xs)
  case Nil
  then show ?thesis by (simp add: rendered_items_def render_run_def)
next
  case (Cons y ys)
  obtain r rs where r: "runs (y # ys) = (y # r) # rs" by (rule runs_Cons_obtain)
  show ?thesis
  proof (cases "unat y = unat x + 1")
    case True
    with assms Cons r have "r = []" by simp
    with True Cons r show ?thesis by (simp add: rendered_items_def render_run_def)
  next
    case False
    with Cons show ?thesis by (simp add: rendered_items_def render_run_def)
  qed
qed

lemma comma_separated_Cons:
  "comma_separated (s # ss) = s @ (if ss = [] then [] else '', '' @ comma_separated ss)"
  by (cases ss) simp_all

lemma print_loop_items:
  "print_loop needcomma xs
     = (if needcomma \<and> xs \<noteq> [] then '', '' else []) @ comma_separated (rendered_items xs)"
proof (induction needcomma xs rule: print_loop.induct)
  case (1 needcomma)
  then show ?case by (simp add: rendered_items_Nil)
next
  case (2 needcomma x xs)
  define n where "n = length (hd (runs (x # xs)))"
  define rest where "rest = drop (Suc (n - 1)) (x # xs)"
  have ir: "isRange x xs = (1 < n - 1, n - 1)"
    by (simp only: isRange_def Let_def scan_first_run n_def)
  have pos: "0 < n" using runs_Cons_ex [of x xs] by (auto simp: n_def)
  show ?case
  proof (cases "1 < n - 1")
    case True
    then have n3: "3 \<le> length (hd (runs (x # xs)))" by (simp add: n_def)
    have S: "Suc (n - 1) = n" using pos by simp
    have ir': "(True, n - 1) = isRange x xs" using ir True by simp
    have ih: "print_loop True rest
       = (if rest \<noteq> [] then '', '' else []) @ comma_separated (rendered_items rest)"
      using "2.IH"(1) [OF ir' refl] by (simp only: rest_def simp_thms)
    have lhs: "print_loop needcomma (x # xs) = (if needcomma then '', '' else []) @
          ''['' @ out_uint16 x @ '','' @ out_uint16 ((x # xs) ! (n - 1)) @ '']'' @
          print_loop True rest"
      by (simp only: print_loop.simps ir True rest_def prod.case bool.case)
    have rhs: "comma_separated (rendered_items (x # xs)) =
          (''['' @ out_uint16 x @ '','' @ out_uint16 ((x # xs) ! (n - 1)) @ '']'') @
          (if rest = [] then [] else '', '' @ comma_separated (rendered_items rest))"
      by (simp only: rendered_items_range [OF n3] comma_separated_Cons rendered_items_eq_Nil_iff rest_def S
          n_def [symmetric])
    show ?thesis unfolding lhs rhs ih by (simp add: rendered_items_Nil)
  next
    case False
    then have n3: "length (hd (runs (x # xs))) < 3" by (simp add: n_def)
    have ir': "(False, n - 1) = isRange x xs" using ir False by simp
    have ih: "print_loop True xs = (if xs \<noteq> [] then '', '' else []) @ comma_separated (rendered_items xs)"
      using "2.IH"(2) [OF ir' refl] by (simp only: simp_thms)
    have lhs: "print_loop needcomma (x # xs) = (if needcomma then '', '' else []) @
          out_uint16 x @ print_loop True xs"
      by (simp only: print_loop.simps ir False prod.case bool.case)
    have rhs: "comma_separated (rendered_items (x # xs)) =
          out_uint16 x @ (if xs = [] then [] else '', '' @ comma_separated (rendered_items xs))"
      by (simp only: rendered_items_single [OF n3] comma_separated_Cons rendered_items_eq_Nil_iff)
    show ?thesis unfolding lhs rhs ih by (simp add: rendered_items_Nil)
  qed
qed

lemma print_filter_spec: "print_filter (VBucketFilter ids) = printer_spec ids"
  by (simp add: print_filter_def printer_spec_def print_loop_items)

text \<open>
  Claim C6: the stream printer writes \<open>{ empty }\<close> for the empty filter and
  otherwise the ids in ascending order between \<open>{\<close> and \<open>}\<close>, separated by
  commas, where every maximal run of three or more consecutive ids is collapsed
  into \<open>[lo,hi]\<close> and the ids of shorter runs are written one by one. The
  runs are the consecutive, non-empty pieces of the id list, and none of them
  can be extended by the id that follows it.
\<close>

theorem print_filter_collapses_runs:
  "print_filter (VBucketFilter ids) = printer_spec ids
 \<and> concat (runs ids) = ids
 \<and> (\<forall>r \<in> set (runs ids). r \<noteq> [] \<and> consecutive r)
 \<and> runs_maximal (runs ids)"
  using print_filter_spec [of ids] concat_runs [of ids] runs_nonempty [of _ ids]
    runs_consecutive [of _ ids] runs_are_maximal [of ids]
  by blast

theorem print_filter_collapses_runs_witness:
  "print_filter (VBucketFilter [1, 2, 3, 5, 6, 8, 9, 10, 11, 65535])
     = ''{ [1,3], 5, 6, [8,11], 65535 }''
 \<and> runs [1, 2, 3, 5, 6, 8, 9, 10, 11, 65535] = [[1, 2, 3], [5, 6], [8, 9, 10, 11], [65535]]
 \<and> print_filter (VBucketFilter []) = ''{ empty }''"
  using print_filter_collapses_runs [of "[1, 2, 3, 5, 6, 8, 9, 10, 11, 65535]"]
    print_filter_collapses_runs [of "[]"]
  by (simp add: print_filter_def isRange_def out_uint16_def digit_def)

section \<open>Properties of the local map and of the engine\<close>

lemma map_of_map_assign: "map_of (map_assign k v m) = (map_of m)(k \<mapsto> v)"
  by (induction m) (auto simp: fun_upd_twist)

lemma keys_map_assign: "set (map fst (map_assign k v m)) = insert k (set (map fst m))"
  by (induction m) auto

lemma sorted_map_assign:
  "sorted_wrt (<) (map fst m) \<Longrightarrow> sorted_wrt (<) (map fst (map_assign k v m))"
proof (induction m)
  case Nil
  then show ?case by simp
next
  case (Cons p m)
  have "set (map fst (map_assign k v m)) = insert k (fst ` set m)"
    using keys_map_assign [of k v m] by simp
  with Cons show ?case by auto
qed

lemma map_of_fold_assign:
  "map_of (fold (\<lambda>c. map_assign c v) cs m) c = (if c \<in> set cs then Some v else map_of m c)"
  by (induction cs arbitrary: m) (auto simp: map_of_map_assign)

lemma sorted_fold_assign:
  "sorted_wrt (<) (map fst m) \<Longrightarrow> sorted_wrt (<) (map fst (fold (\<lambda>c. map_assign c v) cs m))"
  by (induction cs arbitrary: m) (auto simp: sorted_map_assign)

lemma keys_fold_assign:
  "set (map fst (fold (\<lambda>c. map_assign c v) cs m)) = set cs \<union> set (map fst m)"
  by (induction cs arbitrary: m) (auto simp: keys_map_assign simp del: set_map)

lemma filter_key_Some:
  "distinct (map fst m) \<Longrightarrow> map_of m k = Some v \<Longrightarrow> filter (\<lambda>n. fst n = k) m = [(k, v)]"
proof (induction m)
  case Nil
  then show ?case by simp
next
  case (Cons p m)
  show ?case
  proof (cases "fst p = k")
    case True
    with Cons.prems have "p = (k, v)" by (cases p) auto
    moreover from True Cons.prems(1) have "\<forall>n \<in> set m. fst n \<noteq> k"
      by (auto simp: image_iff)
    ultimately show ?thesis by simp
  next
    case False
    with Cons show ?thesis by auto
  qed
qed

lemma filter_key_None: "map_of m k = None \<Longrightarrow> filter (\<lambda>n. fst n = k) m = []"
  by (induction m) (auto split: if_splits)

lemma notified_notify_all: "notified (notify_all m e) = notified e @ m"
  unfolding notify_all_def
  by (induction m arbitrary: e) (auto simp: notifyIOComplete_def)

lemma notified_storeEngineSpecific [simp]: "notified (storeEngineSpecific c p e) = notified e"
  by (simp add: storeEngineSpecific_def)

lemma notified_since_append: "notified e' = notified e @ ns \<Longrightarrow> notified_since e e' = ns"
  by (simp add: notified_since_def)

section \<open>Properties of fireAllOps\<close>

lemma fireAllOps_loop_eq:
  "fireAllOps_loop code (e, ops) = (e\<lparr>notified := notified e @ map (\<lambda>c. (c, code)) (rev ops)\<rparr>, [])"
proof (induction ops arbitrary: e rule: rev_induct)
  case Nil
  then show ?case by (subst fireAllOps_loop.simps) simp
next
  case (snoc x xs)
  show ?case
    by (subst fireAllOps_loop.simps) (simp add: snoc notifyIOComplete_def)
qed

lemma word_gt_0_iff: "(0 :: 64 word) < w \<longleftrightarrow> w \<noteq> 0"
  by (simp add: word_neq_0_conv)

lemma notified_fireAllOps:
  "notified (fst (fireAllOps now (e, vb))) = notified e @ fired_ops vb"
  by (simp add: fireAllOps_def fireAllOps_code_def fired_ops_def Let_def fireAllOps_loop_eq
      word_gt_0_iff)

lemma fireAllOps_keeps:
  "hpChks (snd (fireAllOps now (e, vb))) = hpChks vb"
  "pendingBGFetches (snd (fireAllOps now (e, vb))) = pendingBGFetches vb"
  by (simp_all add: fireAllOps_def fireAllOps_code_def Let_def)

section \<open>Properties of notifyAllPendingConnsFailed\<close>

lemma fold_failAll_step:
  "fold failAll_step hs sw =
     sw\<lparr>sw_toNotify := fold (\<lambda>c. map_assign c ENGINE_TMPFAIL) (map cookie hs) (sw_toNotify sw),
        sw_engine := fold (\<lambda>c. storeEngineSpecific c None) (map cookie hs) (sw_engine sw),
        sw_shard := fold (\<lambda>c. decr_highPriorityCount) (map cookie hs) (sw_shard sw)\<rparr>"
  by (induction hs arbitrary: sw) (simp_all add: failAll_step_def)

lemma notified_fold_store [simp]:
  "notified (fold (\<lambda>c. storeEngineSpecific c None) cs e) = notified e"
  by (induction cs arbitrary: e) simp_all

lemma fold_failAll_bgitem:
  "fold failAll_bgitem bgitems bs =
     bs\<lparr>bg_toNotify := fold (\<lambda>c. map_assign c ENGINE_NOT_MY_VBUCKET) (map bgitem_cookie bgitems) (bg_toNotify bs),
        bg_engine := fold (\<lambda>c. storeEngineSpecific c None) (map bgitem_cookie bgitems) (bg_engine bs),
        num_of_deleted_pending_fetches := num_of_deleted_pending_fetches bs + of_nat (length bgitems)\<rparr>"
  by (induction bgitems arbitrary: bs) (simp_all add: failAll_bgitem_def)

lemma fold_failAll_bgf:
  "fold failAll_bgf fs bs =
     bs\<lparr>bg_toNotify := fold (\<lambda>c. map_assign c ENGINE_NOT_MY_VBUCKET)
                          (map bgitem_cookie (concat (map (\<lambda>bgf. bgfetched_list (snd bgf)) fs))) (bg_toNotify bs),
        bg_engine := fold (\<lambda>c. storeEngineSpecific c None)
                          (map bgitem_cookie (concat (map (\<lambda>bgf. bgfetched_list (snd bgf)) fs))) (bg_engine bs),
        num_of_deleted_pending_fetches := num_of_deleted_pending_fetches bs
            + of_nat (length (concat (map (\<lambda>bgf. bgfetched_list (snd bgf)) fs)))\<rparr>"
  by (induction fs arbitrary: bs) (simp_all add: failAll_bgf_def fold_failAll_bgitem add.assoc)

lemma notified_notifyAllPendingConnsFailed:
  "notified (fst (notifyAllPendingConnsFailed now (e, vb)))
     = notified e @ failAll_toNotify vb @ fired_ops vb"
  by (simp add: notifyAllPendingConnsFailed_def Let_def notified_fireAllOps [unfolded fst_conv]
      notified_notify_all fold_failAll_step fold_failAll_bgf sweep_init_def failAll_toNotify_def
      hp_cookies_def bg_cookies_def fired_ops_def)

lemma containers_notifyAllPendingConnsFailed:
  "hpChks (snd (notifyAllPendingConnsFailed now (e, vb))) = []"
  "pendingBGFetches (snd (notifyAllPendingConnsFailed now (e, vb))) = []"
  by (simp_all add: notifyAllPendingConnsFailed_def Let_def fireAllOps_keeps
      fold_failAll_step sweep_init_def)

lemma map_of_failAll_toNotify:
  "map_of (failAll_toNotify vb) c =
     (if c \<in> set (bg_cookies vb) then Some ENGINE_NOT_MY_VBUCKET
      else if c \<in> set (hp_cookies vb) then Some ENGINE_TMPFAIL else None)"
  by (simp add: failAll_toNotify_def map_of_fold_assign)

lemma sorted_failAll_toNotify: "sorted_wrt (<) (map fst (failAll_toNotify vb))"
  by (simp add: failAll_toNotify_def sorted_fold_assign)

lemma distinct_failAll_toNotify: "distinct (map fst (failAll_toNotify vb))"
  using sorted_failAll_toNotify strict_sorted_iff by blast

lemma keys_failAll_toNotify:
  "fst ` set (failAll_toNotify vb) = set (hp_cookies vb) \<union> set (bg_cookies vb)"
  using keys_fold_assign [of ENGINE_NOT_MY_VBUCKET "bg_cookies vb"
      "fold (\<lambda>c. map_assign c ENGINE_TMPFAIL) (hp_cookies vb) []"]
    keys_fold_assign [of ENGINE_TMPFAIL "hp_cookies vb" "[]"]
  by (auto simp: failAll_toNotify_def)

lemma fired_ops_cookies: "fst ` set (fired_ops vb) \<subseteq> set (pendingOps vb)"
  by (auto simp: fired_ops_def)

lemma setState_keeps:
  "pendingOps (setState to vb) = pendingOps vb"
  "hpChks (setState to vb) = hpChks vb"
  "pendingBGFetches (setState to vb) = pendingBGFetches vb"
  "pendingOpsStart (setState to vb) = pendingOpsStart vb"
  "state (setState to vb) = to"
  by (simp_all add: setState_def Let_def)

text \<open>
  Claim C9, as stated, fails for a cookie that is registered in both
  containers. Cookie 1 waits in the high-priority list and on a background
  fetch: the entry \<open>TempFail\<close> that the first loop stores for it in
  \<open>toNotify\<close> is overwritten by the second loop, and the cookie is notified
  with \<open>NotMyVBucket\<close> only.
\<close>

theorem notifyAllPendingConnsFailed_shared_cookie_counterexample:
  "1 \<in> set (hp_cookies hp_bg_shared_vb)
 \<and> notified (fst (notifyAllPendingConnsFailed 9 (sample_engine, hp_bg_shared_vb)))
     = [(1, ENGINE_NOT_MY_VBUCKET), (2, ENGINE_TMPFAIL), (3, ENGINE_TMPFAIL)]"
  by (simp add: sample_defs run_defs Let_def)

text \<open>
  Claim C9, amended: \<open>notifyAllPendingConnsFailed\<close> runs to its end and
  leaves the high-priority list and the background-fetch map empty. Before it
  fires the pending operations it notifies every cookie registered in either
  container exactly once, and no other cookie: a cookie registered in the
  background-fetch map with \<open>NotMyVBucket\<close> (also when it is registered in the
  high-priority list as well), a cookie registered in the high-priority list
  only with \<open>TempFail\<close>. The notifications that follow go to pending
  operations.
\<close>

theorem notifyAllPendingConnsFailed_sweep:
  "hpChks (snd (notifyAllPendingConnsFailed now (e, vb))) = []
 \<and> pendingBGFetches (snd (notifyAllPendingConnsFailed now (e, vb))) = []
 \<and> (\<exists>sweepN opsN.
       notified_since e (fst (notifyAllPendingConnsFailed now (e, vb))) = sweepN @ opsN
     \<and> distinct (map fst sweepN)
     \<and> fst ` set sweepN = set (hp_cookies vb) \<union> set (bg_cookies vb)
     \<and> (\<forall>c \<in> set (bg_cookies vb). (c, ENGINE_NOT_MY_VBUCKET) \<in> set sweepN)
     \<and> (\<forall>c \<in> set (hp_cookies vb). c \<notin> set (bg_cookies vb) \<longrightarrow> (c, ENGINE_TMPFAIL) \<in> set sweepN)
     \<and> fst ` set opsN \<subseteq> set (pendingOps vb))"
proof -
  have N: "notified_since e (fst (notifyAllPendingConnsFailed now (e, vb)))
             = failAll_toNotify vb @ fired_ops vb"
    by (rule notified_since_append) (rule notified_notifyAllPendingConnsFailed)
  have bg: "\<forall>c \<in> set (bg_cookies vb). (c, ENGINE_NOT_MY_VBUCKET) \<in> set (failAll_toNotify vb)"
    by (auto intro!: map_of_SomeD simp: map_of_failAll_toNotify)
  have hp: "\<forall>c \<in> set (hp_cookies vb). c \<notin> set (bg_cookies vb) \<longrightarrow>
              (c, ENGINE_TMPFAIL) \<in> set (failAll_toNotify vb)"
    by (auto intro!: map_of_SomeD simp: map_of_failAll_toNotify)
  from N bg hp distinct_failAll_toNotify [of vb] keys_failAll_toNotify [of vb]
    fired_ops_cookies [of vb]
  have "\<exists>sweepN opsN.
       notified_since e (fst (notifyAllPendingConnsFailed now (e, vb))) = sweepN @ opsN
     \<and> distinct (map fst sweepN)
     \<and> fst ` set sweepN = set (hp_cookies vb) \<union> set (bg_cookies vb)
     \<and> (\<forall>c \<in> set (bg_cookies vb). (c, ENGINE_NOT_MY_VBUCKET) \<in> set sweepN)
     \<and> (\<forall>c \<in> set (hp_cookies vb). c \<notin> set (bg_cookies vb) \<longrightarrow> (c, ENGINE_TMPFAIL) \<in> set sweepN)
     \<and> fst ` set opsN \<subseteq> set (pendingOps vb)"
    by blast
  then show ?thesis by (simp add: containers_notifyAllPendingConnsFailed)
qed

theorem notifyAllPendingConnsFailed_sweep_witness:
  "hp_cookies pending_vb = [1, 2, 3] \<and> bg_cookies pending_vb = [4, 5]
 \<and> notified (fst (notifyAllPendingConnsFailed 9 (sample_engine, pending_vb)))
     = [(1, ENGINE_TMPFAIL), (2, ENGINE_TMPFAIL), (3, ENGINE_TMPFAIL),
        (4, ENGINE_NOT_MY_VBUCKET), (5, ENGINE_NOT_MY_VBUCKET),
        (8, ENGINE_SUCCESS), (7, ENGINE_SUCCESS)]
 \<and> hpChks (snd (notifyAllPendingConnsFailed 9 (sample_engine, pending_vb))) = []
 \<and> pendingBGFetches (snd (notifyAllPendingConnsFailed 9 (sample_engine, pending_vb))) = []"
  using notifyAllPendingConnsFailed_sweep [of 9 sample_engine pending_vb]
  by (simp add: sample_defs run_defs Let_def fireAllOps_loop_eq)

section \<open>Properties of setState followed by the notification of waiters\<close>

text \<open>
  Claim C3, as stated, fails: \<open>setState\<close> notifies nobody. An active vBucket
  with two pending operations and three high-priority waiters is set to dead;
  no notification has been made after the call and the operations and waiters
  are registered as before.
\<close>

theorem setState_no_notification_counterexample:
  "state pending_vb = vbucket_state_active
 \<and> notified (fst (setState_call vbucket_state_dead (sample_engine, pending_vb))) = []
 \<and> pendingOps (snd (setState_call vbucket_state_dead (sample_engine, pending_vb))) = [7, 8]
 \<and> hp_cookies (snd (setState_call vbucket_state_dead (sample_engine, pending_vb))) = [1, 2, 3]"
  by (simp add: sample_defs run_defs Let_def)

text \<open>
  Claim C3, amended: \<open>setState(X)\<close> performs the transition only; it makes no
  notification and leaves the pending operations and the high-priority waiters
  registered. The notifications are made by \<open>notifyAllPendingConnsFailed\<close>
  when it runs after the transition: for \<open>X\<close> other than active and pending,
  and a non-zero \<open>pendingOpsStart\<close>, it first notifies every cookie of the
  high-priority list and of the background-fetch map exactly once, a cookie of
  the high-priority list that waits on no background fetch with \<open>TempFail\<close>,
  and then every pending operation with \<open>NotMyVBucket\<close>, once per
  registration, the last registered first.
\<close>

theorem setState_then_notifyAllPendingConnsFailed:
  "notified_since e (fst (setState_call to (e, vb))) = []
 \<and> pendingOps (snd (setState_call to (e, vb))) = pendingOps vb
 \<and> hpChks (snd (setState_call to (e, vb))) = hpChks vb
 \<and> (to \<noteq> vbucket_state_active \<and> to \<noteq> vbucket_state_pending \<and> pendingOpsStart vb \<noteq> 0 \<longrightarrow>
      (\<exists>sweepN.
          notified_since e (fst (notifyAllPendingConnsFailed now (setState_call to (e, vb))))
            = sweepN @ map (\<lambda>c. (c, ENGINE_NOT_MY_VBUCKET)) (rev (pendingOps vb))
        \<and> distinct (map fst sweepN)
        \<and> fst ` set sweepN = set (hp_cookies vb) \<union> set (bg_cookies vb)
        \<and> (\<forall>c \<in> set (hp_cookies vb). c \<notin> set (bg_cookies vb) \<longrightarrow>
              (c, ENGINE_TMPFAIL) \<in> set sweepN)))"
proof -
  let ?vb = "setState to vb"
  have call: "setState_call to (e, vb) = (e, ?vb)" by (simp add: setState_call_def)
  have hpc: "hp_cookies ?vb = hp_cookies vb" and bgc: "bg_cookies ?vb = bg_cookies vb"
    by (simp_all add: hp_cookies_def bg_cookies_def setState_keeps)
  have T: "failAll_toNotify ?vb = failAll_toNotify vb"
    by (simp add: failAll_toNotify_def hpc bgc)
  have 1: "notified_since e (fst (setState_call to (e, vb))) = []"
    by (simp add: call notified_since_def)
  have 2: "pendingOps (snd (setState_call to (e, vb))) = pendingOps vb"
    and 3: "hpChks (snd (setState_call to (e, vb))) = hpChks vb"
    by (simp_all add: call setState_keeps)
  have 4: "\<exists>sweepN.
          notified_since e (fst (notifyAllPendingConnsFailed now (setState_call to (e, vb))))
            = sweepN @ map (\<lambda>c. (c, ENGINE_NOT_MY_VBUCKET)) (rev (pendingOps vb))
        \<and> distinct (map fst sweepN)
        \<and> fst ` set sweepN = set (hp_cookies vb) \<union> set (bg_cookies vb)
        \<and> (\<forall>c \<in> set (hp_cookies vb). c \<notin> set (bg_cookies vb) \<longrightarrow>
              (c, ENGINE_TMPFAIL) \<in> set sweepN)"
    if a: "to \<noteq> vbucket_state_active" "to \<noteq> vbucket_state_pending" "pendingOpsStart vb \<noteq> 0"
  proof -
    have F: "fired_ops ?vb = map (\<lambda>c. (c, ENGINE_NOT_MY_VBUCKET)) (rev (pendingOps vb))"
      using a by (simp add: fired_ops_def setState_keeps)
    have N: "notified_since e (fst (notifyAllPendingConnsFailed now (setState_call to (e, vb))))
             = failAll_toNotify vb @ map (\<lambda>c. (c, ENGINE_NOT_MY_VBUCKET)) (rev (pendingOps vb))"
      unfolding call
      by (rule notified_since_append) (simp add: notified_notifyAllPendingConnsFailed T F)
    have hp: "\<forall>c \<in> set (hp_cookies vb). c \<notin> set (bg_cookies vb) \<longrightarrow>
              (c, ENGINE_TMPFAIL) \<in> set (failAll_toNotify vb)"
      by (auto intro!: map_of_SomeD simp: map_of_failAll_toNotify)
    from N hp distinct_failAll_toNotify [of vb] keys_failAll_toNotify [of vb]
    show ?thesis by blast
  qed
  from 1 2 3 4 show ?thesis by blast
qed

theorem setState_then_notifyAllPendingConnsFailed_witness:
  "vbucket_state_dead \<noteq> vbucket_state_active \<and> vbucket_state_dead \<noteq> vbucket_state_pending
 \<and> pendingOpsStart pending_vb \<noteq> 0
 \<and> notified (fst (notifyAllPendingConnsFailed 9
       (setState_call vbucket_state_dead (sample_engine, pending_vb))))
     = [(1, ENGINE_TMPFAIL), (2, ENGINE_TMPFAIL), (3, ENGINE_TMPFAIL),
        (4, ENGINE_NOT_MY_VBUCKET), (5, ENGINE_NOT_MY_VBUCKET),
        (8, ENGINE_NOT_MY_VBUCKET), (7, ENGINE_NOT_MY_VBUCKET)]"
  using setState_then_notifyAllPendingConnsFailed
          [of sample_engine vbucket_state_dead pending_vb 9]
  by (simp add: sample_defs run_defs Let_def fireAllOps_loop_eq)

section \<open>Properties of notifyOnPersistence\<close>

lemma step_skip:
  "isBySeqno' h \<noteq> b \<Longrightarrow>
   notifyOnPersistence_step MN MX clk S b h sw = sw\<lparr>sw_before := sw_before sw @ [h]\<rparr>"
  by (auto simp: notifyOnPersistence_step_def)

lemma step_toNotify_cases:
  "sw_toNotify (notifyOnPersistence_step MN MX clk S b h sw) =
     (if isBySeqno' h = b \<and> id' h \<le> S then map_assign (cookie h) ENGINE_SUCCESS (sw_toNotify sw)
      else sw_toNotify (notifyOnPersistence_step MN MX clk S b h sw))
   \<and> (isBySeqno' h \<noteq> b \<longrightarrow>
        sw_toNotify (notifyOnPersistence_step MN MX clk S b h sw) = sw_toNotify sw)
   \<and> (sw_toNotify (notifyOnPersistence_step MN MX clk S b h sw) = sw_toNotify sw
       \<or> sw_toNotify (notifyOnPersistence_step MN MX clk S b h sw)
            = map_assign (cookie h) ENGINE_SUCCESS (sw_toNotify sw)
       \<or> sw_toNotify (notifyOnPersistence_step MN MX clk S b h sw)
            = map_assign (cookie h) ENGINE_TMPFAIL (sw_toNotify sw))"
  by (auto simp: notifyOnPersistence_step_def Let_def)

lemma step_before_cases:
  "sw_before (notifyOnPersistence_step MN MX clk S b h sw) =
     (if isBySeqno' h \<noteq> b then sw_before sw @ [h]
      else if id' h \<le> S then sw_before sw
      else sw_before (notifyOnPersistence_step MN MX clk S b h sw))
   \<and> (sw_before (notifyOnPersistence_step MN MX clk S b h sw) = sw_before sw
       \<or> sw_before (notifyOnPersistence_step MN MX clk S b h sw) = sw_before sw @ [h])"
  by (auto simp: notifyOnPersistence_step_def Let_def)

lemma step_notified [simp]:
  "notified (sw_engine (notifyOnPersistence_step MN MX clk S b h sw)) = notified (sw_engine sw)"
  by (auto simp: notifyOnPersistence_step_def Let_def)

lemma fold_step_notified:
  "notified (sw_engine (fold (notifyOnPersistence_step MN MX clk S b) hs sw)) = notified (sw_engine sw)"
  by (induction hs arbitrary: sw) simp_all

lemma step_sorted:
  "sorted_wrt (<) (map fst (sw_toNotify sw)) \<Longrightarrow>
   sorted_wrt (<) (map fst (sw_toNotify (notifyOnPersistence_step MN MX clk S b h sw)))"
  using step_toNotify_cases [of MN MX clk S b h sw] sorted_map_assign by metis

lemma fold_step_sorted:
  "sorted_wrt (<) (map fst (sw_toNotify sw)) \<Longrightarrow>
   sorted_wrt (<) (map fst (sw_toNotify (fold (notifyOnPersistence_step MN MX clk S b) hs sw)))"
  by (induction hs arbitrary: sw) (simp_all add: step_sorted)

text \<open>The entries of the other wait type stay in the list, in their order.\<close>

lemma fold_step_other_type:
  "filter (\<lambda>h. isBySeqno' h \<noteq> b) (sw_before (fold (notifyOnPersistence_step MN MX clk S b) hs sw))
     = filter (\<lambda>h. isBySeqno' h \<noteq> b) (sw_before sw) @ filter (\<lambda>h. isBySeqno' h \<noteq> b) hs"
proof (induction hs arbitrary: sw)
  case Nil
  then show ?case by simp
next
  case (Cons h hs)
  have "filter (\<lambda>h. isBySeqno' h \<noteq> b) (sw_before (notifyOnPersistence_step MN MX clk S b h sw))
          = filter (\<lambda>h. isBySeqno' h \<noteq> b) (sw_before sw) @ filter (\<lambda>h. isBySeqno' h \<noteq> b) [h]"
    using step_before_cases [of MN MX clk S b h sw]
    by (cases "isBySeqno' h = b") auto
  then show ?case by (simp only: fold_simps Cons.IH) simp
qed

lemma fold_step_before_subset:
  "set (sw_before (fold (notifyOnPersistence_step MN MX clk S b) hs sw))
     \<subseteq> set (sw_before sw) \<union> {h \<in> set hs. \<not> (isBySeqno' h = b \<and> id' h \<le> S)}"
proof (induction hs arbitrary: sw)
  case Nil
  then show ?case by simp
next
  case (Cons h hs)
  have "set (sw_before (notifyOnPersistence_step MN MX clk S b h sw))
          \<subseteq> set (sw_before sw) \<union> {h' \<in> {h}. \<not> (isBySeqno' h' = b \<and> id' h' \<le> S)}"
    using step_before_cases [of MN MX clk S b h sw] by (auto split: if_splits)
  with Cons.IH [of "notifyOnPersistence_step MN MX clk S b h sw"] show ?case by auto
qed

lemma fold_step_untouched:
  "c \<notin> cookie ` {h \<in> set hs. isBySeqno' h = b} \<Longrightarrow>
   map_of (sw_toNotify (fold (notifyOnPersistence_step MN MX clk S b) hs sw)) c
     = map_of (sw_toNotify sw) c"
proof (induction hs arbitrary: sw)
  case Nil
  then show ?case by simp
next
  case (Cons h hs)
  have "map_of (sw_toNotify (notifyOnPersistence_step MN MX clk S b h sw)) c = map_of (sw_toNotify sw) c"
    using step_toNotify_cases [of MN MX clk S b h sw] Cons.prems
    by (cases "isBySeqno' h = b") (auto simp: map_of_map_assign)
  moreover have "c \<notin> cookie ` {h \<in> set hs. isBySeqno' h = b}" using Cons.prems by auto
  ultimately show ?case using Cons.IH by simp
qed

lemma fold_step_stays_success:
  assumes "\<forall>h \<in> set hs. cookie h = c \<and> isBySeqno' h = b \<longrightarrow> id' h \<le> S"
    and "map_of (sw_toNotify sw) c = Some ENGINE_SUCCESS"
  shows "map_of (sw_toNotify (fold (notifyOnPersistence_step MN MX clk S b) hs sw)) c
           = Some ENGINE_SUCCESS"
  using assms
proof (induction hs arbitrary: sw)
  case Nil
  then show ?case by simp
next
  case (Cons h hs)
  have "map_of (sw_toNotify (notifyOnPersistence_step MN MX clk S b h sw)) c = Some ENGINE_SUCCESS"
  proof (cases "cookie h = c")
    case True
    show ?thesis
    proof (cases "isBySeqno' h = b")
      case True
      with \<open>cookie h = c\<close> Cons.prems(1) have "id' h \<le> S" by simp
      with True \<open>cookie h = c\<close> show ?thesis
        using step_toNotify_cases [of MN MX clk S b h sw] by (simp add: map_of_map_assign)
    next
      case False
      then show ?thesis using step_toNotify_cases [of MN MX clk S b h sw] Cons.prems(2) by simp
    qed
  next
    case False
    then show ?thesis
      using step_toNotify_cases [of MN MX clk S b h sw] Cons.prems(2)
      by (auto simp: map_of_map_assign)
  qed
  moreover have "\<forall>h \<in> set hs. cookie h = c \<and> isBySeqno' h = b \<longrightarrow> id' h \<le> S"
    using Cons.prems(1) by simp
  ultimately show ?case using Cons.IH by simp
qed

lemma fold_step_success:
  assumes "h \<in> set hs" and "isBySeqno' h = b" and "id' h \<le> S"
    and "\<forall>h' \<in> set hs. cookie h' = cookie h \<and> isBySeqno' h' = b \<longrightarrow> id' h' \<le> S"
  shows "map_of (sw_toNotify (fold (notifyOnPersistence_step MN MX clk S b) hs sw)) (cookie h)
           = Some ENGINE_SUCCESS"
  using assms
proof (induction hs arbitrary: sw)
  case Nil
  then show ?case by simp
next
  case (Cons g hs)
  have rest: "\<forall>h' \<in> set hs. cookie h' = cookie h \<and> isBySeqno' h' = b \<longrightarrow> id' h' \<le> S"
    using Cons.prems(4) by simp
  show ?case
  proof (cases "g = h")
    case True
    have "map_of (sw_toNotify (notifyOnPersistence_step MN MX clk S b g sw)) (cookie h) = Some ENGINE_SUCCESS"
      using step_toNotify_cases [of MN MX clk S b g sw] True Cons.prems(2,3)
      by (simp add: map_of_map_assign)
    then show ?thesis using fold_step_stays_success [OF rest] by simp
  next
    case False
    with Cons.prems(1) have "h \<in> set hs" by simp
    from Cons.IH [OF this Cons.prems(2,3) rest] show ?thesis by simp
  qed
qed

lemma notified_notifyOnPersistence:
  "notified_since e (fst (notifyOnPersistence MN MX clk S b (e, vb)))
     = sw_toNotify (fold (notifyOnPersistence_step MN MX clk S b) (hpChks vb) (sweep_init e vb))"
  by (rule notified_since_append)
     (simp add: notifyOnPersistence_def Let_def notified_notify_all fold_step_notified sweep_init_def)

lemma hpChks_notifyOnPersistence:
  "hpChks (snd (notifyOnPersistence MN MX clk S b (e, vb)))
     = sw_before (fold (notifyOnPersistence_step MN MX clk S b) (hpChks vb) (sweep_init e vb))"
  by (simp add: notifyOnPersistence_def Let_def)

text \<open>
  Claim C2, as stated, fails when two waiters share a cookie. Two seqno waiters
  are registered with cookie 1, for seqno 5 and for seqno 100, and
  \<open>notifyOnPersistence(10, BySeqno)\<close> runs 50 seconds later: the first waiter
  has reached its target, the second has timed out, and the one notification
  that cookie 1 receives carries \<open>TempFail\<close>, not \<open>Success\<close>.
\<close>

theorem notifyOnPersistence_shared_cookie_counterexample:
  "notified (fst (notifyOnPersistence 10 30 sample_clock 10 True (sample_engine, shared_cookie_vb)))
     = [(1, ENGINE_TMPFAIL)]
   \<and> hpChks shared_cookie_vb
     = [\<lparr>cookie = 1, id' = 5, start = 0, isBySeqno' = True\<rparr>,
        \<lparr>cookie = 1, id' = 100, start = 0, isBySeqno' = True\<rparr>]"
  by (simp add: sample_defs run_defs Let_def)

text \<open>
  Claim C2, amended: after \<open>notifyOnPersistence(S, BySeqno)\<close> every seqno
  waiter with target at most \<open>S\<close> is removed from the list, and its cookie is
  notified exactly once, with \<open>Success\<close>, provided every seqno waiter
  registered with the same cookie has a target of at most \<open>S\<close> (as is the
  case when the cookies are pairwise distinct). The checkpoint waiters stay in
  the list in their order whatever their targets, and the cookie of a
  checkpoint waiter is not notified unless a seqno waiter shares it.
\<close>

theorem notifyOnPersistence_seqno_waiters:
  "(\<forall>h \<in> set (hpChks vb). isBySeqno' h \<and> id' h \<le> S \<longrightarrow>
       h \<notin> set (hpChks (snd (notifyOnPersistence MN MX clk S True (e, vb)))))
 \<and> (\<forall>h \<in> set (hpChks vb).
       isBySeqno' h \<and> id' h \<le> S
       \<and> (\<forall>h' \<in> set (hpChks vb). isBySeqno' h' \<and> cookie h' = cookie h \<longrightarrow> id' h' \<le> S) \<longrightarrow>
       filter (\<lambda>n. fst n = cookie h)
         (notified_since e (fst (notifyOnPersistence MN MX clk S True (e, vb))))
         = [(cookie h, ENGINE_SUCCESS)])
 \<and> filter (\<lambda>h. \<not> isBySeqno' h) (hpChks (snd (notifyOnPersistence MN MX clk S True (e, vb))))
       = filter (\<lambda>h. \<not> isBySeqno' h) (hpChks vb)
 \<and> (\<forall>h \<in> set (hpChks vb).
       \<not> isBySeqno' h \<and> cookie h \<notin> cookie ` {h' \<in> set (hpChks vb). isBySeqno' h'} \<longrightarrow>
       cookie h \<notin> fst ` set (notified_since e (fst (notifyOnPersistence MN MX clk S True (e, vb)))))"
proof -
  let ?sw = "fold (notifyOnPersistence_step MN MX clk S True) (hpChks vb) (sweep_init e vb)"
  have N: "notified_since e (fst (notifyOnPersistence MN MX clk S True (e, vb))) = sw_toNotify ?sw"
    by (rule notified_notifyOnPersistence)
  have H: "hpChks (snd (notifyOnPersistence MN MX clk S True (e, vb))) = sw_before ?sw"
    by (rule hpChks_notifyOnPersistence)
  have sorted: "sorted_wrt (<) (map fst (sw_toNotify ?sw))"
    by (rule fold_step_sorted) (simp add: sweep_init_def)
  then have dist: "distinct (map fst (sw_toNotify ?sw))"
    using strict_sorted_iff by blast
  have 1: "\<forall>h \<in> set (hpChks vb). isBySeqno' h \<and> id' h \<le> S \<longrightarrow> h \<notin> set (sw_before ?sw)"
    using fold_step_before_subset [of MN MX clk S True "hpChks vb" "sweep_init e vb"]
    by (auto simp: sweep_init_def)
  have 2: "\<forall>h \<in> set (hpChks vb).
       isBySeqno' h \<and> id' h \<le> S
       \<and> (\<forall>h' \<in> set (hpChks vb). isBySeqno' h' \<and> cookie h' = cookie h \<longrightarrow> id' h' \<le> S) \<longrightarrow>
       filter (\<lambda>n. fst n = cookie h) (sw_toNotify ?sw) = [(cookie h, ENGINE_SUCCESS)]"
  proof (intro ballI impI)
    fix h
    assume h: "h \<in> set (hpChks vb)"
      and a: "isBySeqno' h \<and> id' h \<le> S
       \<and> (\<forall>h' \<in> set (hpChks vb). isBySeqno' h' \<and> cookie h' = cookie h \<longrightarrow> id' h' \<le> S)"
    have "map_of (sw_toNotify ?sw) (cookie h) = Some ENGINE_SUCCESS"
      by (rule fold_step_success [OF h]) (use a in auto)
    with dist show "filter (\<lambda>n. fst n = cookie h) (sw_toNotify ?sw) = [(cookie h, ENGINE_SUCCESS)]"
      by (rule filter_key_Some)
  qed
  have 3: "filter (\<lambda>h. \<not> isBySeqno' h) (sw_before ?sw) = filter (\<lambda>h. \<not> isBySeqno' h) (hpChks vb)"
    using fold_step_other_type [of True MN MX clk S "hpChks vb" "sweep_init e vb"]
    by (simp add: sweep_init_def)
  have 4: "\<forall>h \<in> set (hpChks vb).
       \<not> isBySeqno' h \<and> cookie h \<notin> cookie ` {h' \<in> set (hpChks vb). isBySeqno' h'} \<longrightarrow>
       cookie h \<notin> fst ` set (sw_toNotify ?sw)"
  proof (intro ballI impI)
    fix h
    assume "h \<in> set (hpChks vb)"
      and a: "\<not> isBySeqno' h \<and> cookie h \<notin> cookie ` {h' \<in> set (hpChks vb). isBySeqno' h'}"
    then have "cookie h \<notin> cookie ` {h' \<in> set (hpChks vb). isBySeqno' h' = True}" by simp
    from fold_step_untouched [OF this, of MN MX clk S "sweep_init e vb"]
    have "map_of (sw_toNotify ?sw) (cookie h) = None" by (simp add: sweep_init_def)
    then show "cookie h \<notin> fst ` set (sw_toNotify ?sw)" by (simp add: map_of_eq_None_iff)
  qed
  from 1 2 3 4 show ?thesis unfolding N H by blast
qed

theorem notifyOnPersistence_seqno_waiters_witness:
  "hp_cookies waiters_vb = [1, 2, 3]
 \<and> notified (fst (notifyOnPersistence 10 30 sample_clock 10 True (sample_engine, waiters_vb)))
     = [(1, ENGINE_SUCCESS), (2, ENGINE_TMPFAIL)]
 \<and> hpChks (snd (notifyOnPersistence 10 30 sample_clock 10 True (sample_engine, waiters_vb)))
     = [\<lparr>cookie = 3, id' = 1, start = 0, isBySeqno' = False\<rparr>]"
  using notifyOnPersistence_seqno_waiters [of waiters_vb 10 10 30 sample_clock sample_engine]
  by (simp add: sample_defs run_defs Let_def)

end
